theory Spec2Isabelle
  imports Main
begin

section \<open>JavaScript values and the object heap\<close>

text \<open>
  The library (\<^verbatim>\<open>index.ts\<close>) is written against JavaScript objects, which are
  reference values. Objects therefore live in a heap: a value is a primitive or a
  reference, every object literal of the source allocates, and user code (the passes)
  transforms the heap.

  An object has its own enumerable data properties (what the spread \<^verbatim>\<open>{...v}\<close>
  copies), the properties found only through its prototype chain or that are not
  enumerable (what a read \<^verbatim>\<open>v.then\<close> also finds, and a spread does not copy), and,
  when it is callable, the identity of its code. Accessor properties are not modelled.
\<close>

type_synonym addr = nat
type_synonym fid = nat

datatype jsval = Undefined | Null | Bool bool | Num int | Str string | Ref addr

record obj =
  own_props :: "string \<rightharpoonup> jsval"
  proto_props :: "string \<rightharpoonup> jsval"
  callee :: "fid option"

type_synonym heap = "obj list"

definition plain :: "(string \<rightharpoonup> jsval) \<Rightarrow> obj" where
  "plain m = \<lparr>own_props = m, proto_props = Map.empty, callee = None\<rparr>"

text \<open>JavaScript has no dangling reference; a reference beyond the heap reads as an
  object without properties.\<close>

definition deref :: "heap \<Rightarrow> addr \<Rightarrow> obj" where
  "deref h a = (if a < length h then h ! a else plain Map.empty)"

text \<open>An object literal \<^verbatim>\<open>{ ... }\<close>: a new object at the next free address.\<close>

definition alloc :: "obj \<Rightarrow> heap \<Rightarrow> jsval \<times> heap" where
  "alloc ob h = (Ref (length h), h @ [ob])"

fun typeof :: "heap \<Rightarrow> jsval \<Rightarrow> string" where
  "typeof h Undefined = ''undefined''"
| "typeof h Null = ''object''"
| "typeof h (Bool b) = ''boolean''"
| "typeof h (Num n) = ''number''"
| "typeof h (Str s) = ''string''"
| "typeof h (Ref a) = (if callee (deref h a) = None then ''object'' else ''function'')"

text \<open>\<^verbatim>\<open>!!v\<close>\<close>

fun truthy :: "jsval \<Rightarrow> bool" where
  "truthy Undefined = False"
| "truthy Null = False"
| "truthy (Bool b) = b"
| "truthy (Num n) = (n \<noteq> 0)"
| "truthy (Str s) = (s \<noteq> [])"
| "truthy (Ref a) = True"

text \<open>A property read \<^verbatim>\<open>v.k\<close>. The source reads a property only behind a truthiness
  test (\<^verbatim>\<open>!!v &&\<close>, \<^verbatim>\<open>maybeObj &&\<close>), so the read of \<^verbatim>\<open>null\<close> or \<^verbatim>\<open>undefined\<close>, which
  throws, never happens; the prototypes of the primitives hold neither \<^verbatim>\<open>then\<close> nor
  \<^verbatim>\<open>run\<close>.\<close>

fun get :: "heap \<Rightarrow> jsval \<Rightarrow> string \<Rightarrow> jsval" where
  "get h (Ref a) k =
     (case own_props (deref h a) k of
        Some v \<Rightarrow> v
      | None \<Rightarrow> (case proto_props (deref h a) k of Some v \<Rightarrow> v | None \<Rightarrow> Undefined))"
| "get h v k = Undefined"

text \<open>Decimal numerals, for the index keys of a spread string.\<close>

function dec :: "nat \<Rightarrow> string" where
  "dec n =
     (if n < 10 then [''0123456789'' ! n] else dec (n div 10) @ [''0123456789'' ! (n mod 10)])"
  by pat_completeness auto
termination
  by (relation "measure id") auto

declare dec.simps [simp del]

text \<open>The properties a spread \<^verbatim>\<open>...v\<close> copies into an object literal: the own
  enumerable properties of an object, the characters of a string under their indices,
  nothing for the other primitives.\<close>

fun spread :: "heap \<Rightarrow> jsval \<Rightarrow> (string \<rightharpoonup> jsval)" where
  "spread h (Ref a) = own_props (deref h a)"
| "spread h (Str s) = map_of (map (\<lambda>i. (dec i, Str [s ! i])) [0..<length s])"
| "spread h v = Map.empty"

text \<open>\<^verbatim>\<open>...(v || {})\<close>\<close>

definition spread_or :: "heap \<Rightarrow> jsval \<Rightarrow> (string \<rightharpoonup> jsval)" where
  "spread_or h v = (if truthy v then spread h v else Map.empty)"

section \<open>User code and the promise machinery\<close>

text \<open>
  What a pass does, and how a thenable settles, is not code of the library. Both are
  parameters: \<open>call H f this arg\<close> runs the function with code \<open>f\<close> on a receiver and
  one argument, returning or throwing and transforming the heap; \<open>await H v\<close> is how the
  promise machinery of the runtime finds the thenable \<open>v\<close> settled (its \<^verbatim>\<open>then\<close> is run
  with the resolving functions): fulfilled, rejected or never.
\<close>

datatype exn = TypeError string | Thrown jsval

datatype outcome = Return jsval | Throw exn

datatype settled = Fulfilled jsval | Rejected exn | Pending

record host =
  call :: "fid \<Rightarrow> jsval \<Rightarrow> jsval \<Rightarrow> heap \<Rightarrow> outcome \<times> heap"
  await :: "jsval \<Rightarrow> heap \<Rightarrow> settled \<times> heap"

text \<open>A call \<^verbatim>\<open>f(arg)\<close> or \<^verbatim>\<open>o.m(arg)\<close> of a value: its code runs, on the receiver.\<close>

definition invoke :: "host \<Rightarrow> jsval \<Rightarrow> jsval \<Rightarrow> jsval \<Rightarrow> heap \<Rightarrow> outcome \<times> heap" where
  "invoke H f this arg h =
     (case f of
        Ref a \<Rightarrow>
          (case callee (deref h a) of
             Some c \<Rightarrow> call H c this arg h
           | None \<Rightarrow> (Throw (TypeError ''not a function''), h))
      | _ \<Rightarrow> (Throw (TypeError ''not a function''), h))"

text \<open>A promise the library creates is the computation that settles it: run on the
  heap of the moment it is waited for, it yields the settlement and the heap then.
  Every promise of the source is consumed by exactly one \<^verbatim>\<open>then\<close>.\<close>

type_synonym promise = "heap \<Rightarrow> settled \<times> heap"

datatype reaction = CbValue jsval | CbPromise promise | CbThrow exn

section \<open>The library: \<^verbatim>\<open>index.ts\<close>\<close>

type_synonym pass = "jsval \<Rightarrow> heap \<Rightarrow> outcome \<times> heap"

text \<open>The closure \<^verbatim>\<open>wrapper\<close> that \<^verbatim>\<open>addPass(fn)\<close> stores (lines 75 to 89). The plain call
  \<^verbatim>\<open>fn(env)\<close> of module code has no receiver; \<^verbatim>\<open>maybeObj.run(env)\<close> has the object.\<close>

definition wrapper :: "host \<Rightarrow> jsval \<Rightarrow> pass" where
  "wrapper H fn env h =
     (if typeof h fn = ''function'' then invoke H fn Undefined env h
      else if truthy fn \<and> typeof h (get h fn ''run'') = ''function''
      then invoke H (get h fn ''run'') fn env h
      else (Throw (TypeError ''addPass expects a function or an object with a run(env) method''), h))"

text \<open>\<^verbatim>\<open>isThenable\<close> (lines 124 to 127).\<close>

definition isThenable :: "heap \<Rightarrow> jsval \<Rightarrow> bool" where
  "isThenable h v \<longleftrightarrow>
     truthy v \<and> (typeof h v = ''object'' \<or> typeof h v = ''function'') \<and>
     typeof h (get h v ''then'') = ''function''"

text \<open>\<^verbatim>\<open>Promise.resolve(v)\<close>: the runtime follows a thenable (an object or function with
  a callable \<^verbatim>\<open>then\<close>, the test \<open>isThenable\<close> makes) and fulfils with anything else.
  \<^verbatim>\<open>p.then(onfulfilled)\<close>, with no rejection handler: the callback runs on the fulfilment
  value; what it returns resolves the new promise, what it throws rejects it.\<close>

definition Promise_resolve :: "host \<Rightarrow> jsval \<Rightarrow> promise" where
  "Promise_resolve H v h = (if isThenable h v then await H v h else (Fulfilled v, h))"

definition Promise_then :: "host \<Rightarrow> promise \<Rightarrow> (jsval \<Rightarrow> heap \<Rightarrow> reaction \<times> heap) \<Rightarrow> promise" where
  "Promise_then H p onfulfilled h =
     (case p h of
        (Fulfilled v, h1) \<Rightarrow>
          (case onfulfilled v h1 of
             (CbValue r, h2) \<Rightarrow> Promise_resolve H r h2
           | (CbPromise q, h2) \<Rightarrow> q h2
           | (CbThrow e, h2) \<Rightarrow> (Rejected e, h2))
      | (Rejected e, h1) \<Rightarrow> (Rejected e, h1)
      | (Pending, h1) \<Rightarrow> (Pending, h1))"

text \<open>\<^verbatim>\<open>{ ...env, ...(out || {}) }\<close>\<close>

definition merge :: "jsval \<Rightarrow> jsval \<Rightarrow> heap \<Rightarrow> jsval \<times> heap" where
  "merge env out h = alloc (plain (spread h env ++ spread_or h out)) h"

text \<open>The reducer of lines 146 to 153: \<^verbatim>\<open>(p, next) => p.then((_env) => ...)\<close>; \<open>env1\<close> is its \<^verbatim>\<open>_env\<close>.\<close>

definition chain :: "host \<Rightarrow> promise \<Rightarrow> pass \<Rightarrow> promise" where
  "chain H p next =
     Promise_then H p (\<lambda>env1 h.
       case next env1 h of
         (Throw e, h1) \<Rightarrow> (CbThrow e, h1)
       | (Return maybe, h1) \<Rightarrow>
           (CbPromise (Promise_then H (Promise_resolve H maybe)
              (\<lambda>r h2. case merge env1 r h2 of (v, h3) \<Rightarrow> (CbValue v, h3))), h1))"

text \<open>The switch to promise-based execution (lines 139 to 156), for the thenable \<open>out\<close>
  of the pass at index \<open>i\<close> and \<open>remaining = passes.slice(i + 1)\<close>.\<close>

definition deferred :: "host \<Rightarrow> jsval \<Rightarrow> jsval \<Rightarrow> pass list \<Rightarrow> promise" where
  "deferred H env out remaining =
     Promise_then H (Promise_resolve H out) (\<lambda>resolvedOut h.
       case merge env resolvedOut h of
         (env', h1) \<Rightarrow>
           (CbPromise (Promise_then H (foldl (chain H) (Promise_resolve H env') remaining)
              (\<lambda>finalEnv h2. (CbValue finalEnv, h2))), h1))"

text \<open>What a call of the runner gives its caller: the environment, an exception, or a
  promise. The promise is pending when the call returns; the model gives how it settles,
  with the heap of the moment it has settled (or has stalled, when it never does).\<close>

datatype result = Value jsval | Raised exn | Handle settled

text \<open>The loop of lines 132 to 163 over \<open>passes[i..]\<close>.\<close>

fun sync_loop :: "host \<Rightarrow> pass list \<Rightarrow> jsval \<Rightarrow> heap \<Rightarrow> result \<times> heap" where
  "sync_loop H [] env h = (Value env, h)"
| "sync_loop H (pass # rest) env h =
     (case pass env h of
        (Throw e, h1) \<Rightarrow> (Raised e, h1)
      | (Return out, h1) \<Rightarrow>
          if isThenable h1 out
          then (case deferred H env out rest h1 of (s, h2) \<Rightarrow> (Handle s, h2))
          else (case merge env out h1 of (env', h2) \<Rightarrow> sync_loop H rest env' h2))"

text \<open>The runner \<^verbatim>\<open>(input?: any) => { ... }\<close> that \<^verbatim>\<open>build\<close> returns (lines 129 to 164);
  a call without argument passes \<^verbatim>\<open>undefined\<close>.\<close>

definition runner :: "host \<Rightarrow> pass list \<Rightarrow> jsval \<Rightarrow> heap \<Rightarrow> result \<times> heap" where
  "runner H passes input h =
     (case alloc (plain (spread_or h input)) h of (env, h0) \<Rightarrow> sync_loop H passes env h0)"

text \<open>The builder. Its private array \<^verbatim>\<open>passes\<close> is an object of its own, which user
  code cannot reach: the arrays live in a store of their own. A builder is a reference to
  its array; a runner is a closure over the array \<^verbatim>\<open>build\<close> copied.\<close>

type_synonym arrays = "pass list list"

datatype builder = PipelineBuilder (passes_of: addr)

datatype runner_fn = RunnerFn (captured: addr)

text \<open>\<^verbatim>\<open>pipeline()\<close>: \<^verbatim>\<open>new PipelineBuilder()\<close>, with \<^verbatim>\<open>passes = []\<close>.\<close>

definition pipeline :: "arrays \<Rightarrow> builder \<times> arrays" where
  "pipeline A = (PipelineBuilder (length A), A @ [[]])"

text \<open>\<^verbatim>\<open>addPass(fn)\<close>: \<^verbatim>\<open>this.passes.push(wrapper); return this\<close>.\<close>

definition addPass :: "host \<Rightarrow> jsval \<Rightarrow> builder \<Rightarrow> arrays \<Rightarrow> builder \<times> arrays" where
  "addPass H fn b A = (b, A[passes_of b := A ! passes_of b @ [wrapper H fn]])"

text \<open>\<^verbatim>\<open>build()\<close>: \<^verbatim>\<open>const passes = this.passes.slice()\<close>, and the closure over it.\<close>

definition build :: "builder \<Rightarrow> arrays \<Rightarrow> runner_fn \<times> arrays" where
  "build b A = (RunnerFn (length A), A @ [A ! passes_of b])"

text \<open>A call \<^verbatim>\<open>fn(input)\<close> of a built runner.\<close>

definition run :: "host \<Rightarrow> runner_fn \<Rightarrow> arrays \<Rightarrow> jsval \<Rightarrow> heap \<Rightarrow> result \<times> heap" where
  "run H r A input h = runner H (A ! captured r) input h"

section \<open>Pipelines as a caller builds them\<close>

text \<open>Chained registration \<^verbatim>\<open>pipeline().addPass(f1) ... .addPass(fn).build()\<close>, and the
  operations a caller may go on to perform on a builder.\<close>

definition register_all :: "host \<Rightarrow> jsval list \<Rightarrow> builder \<Rightarrow> arrays \<Rightarrow> builder \<times> arrays" where
  "register_all H fns b A = foldl (\<lambda>(b, A) fn. addPass H fn b A) (b, A) fns"

definition built :: "host \<Rightarrow> jsval list \<Rightarrow> arrays \<Rightarrow> runner_fn \<times> arrays" where
  "built H fns A =
     (case pipeline A of (b, A1) \<Rightarrow> case register_all H fns b A1 of (b', A2) \<Rightarrow> build b' A2)"

datatype builder_op = AddPass jsval | Build

fun apply_ops :: "host \<Rightarrow> builder_op list \<Rightarrow> builder \<Rightarrow> arrays \<Rightarrow> arrays" where
  "apply_ops H [] b A = A"
| "apply_ops H (AddPass fn # ops) b A = (case addPass H fn b A of (b', A') \<Rightarrow> apply_ops H ops b' A')"
| "apply_ops H (Build # ops) b A = (case build b A of (r, A') \<Rightarrow> apply_ops H ops b A')"

section \<open>Notions the claims speak of\<close>

text \<open>A value that is neither callable nor an object with a callable \<^verbatim>\<open>run\<close>.\<close>

definition invalid_pass :: "heap \<Rightarrow> jsval \<Rightarrow> bool" where
  "invalid_pass h fn \<longleftrightarrow>
     typeof h fn \<noteq> ''function'' \<and> \<not> (truthy fn \<and> typeof h (get h fn ''run'') = ''function'')"

text \<open>The promise machinery never fulfils a promise with a thenable: it follows the
  thenable instead. A host is well-formed when its \<open>await\<close> respects this.\<close>

definition wf_host :: "host \<Rightarrow> bool" where
  "wf_host H \<longleftrightarrow> (\<forall>v h w h'. await H v h = (Fulfilled w, h') \<longrightarrow> \<not> isThenable h' w)"

definition fulfils_plain :: "promise \<Rightarrow> bool" where
  "fulfils_plain p \<longleftrightarrow> (\<forall>h v h'. p h = (Fulfilled v, h') \<longrightarrow> \<not> isThenable h' v)"

text \<open>The rest of the chain, over the passes \<open>qs\<close>, from a promise fulfilled with \<open>v\<close>.\<close>

definition resume :: "host \<Rightarrow> jsval \<Rightarrow> pass list \<Rightarrow> promise" where
  "resume H v qs =
     Promise_then H (foldl (chain H) (\<lambda>h. (Fulfilled v, h)) qs) (\<lambda>finalEnv h2. (CbValue finalEnv, h2))"

type_synonym fields = "string \<rightharpoonup> jsval"

text \<open>A notion of the spec, to state the claims with: a mapping shallow-overlaid, in order, by
  the mappings of a list, a field of a later mapping overwriting a same-named earlier one (\<open>++\<close> is
  the override of maps).\<close>

fun overlaid :: "fields \<Rightarrow> fields list \<Rightarrow> fields" where
  "overlaid m [] = m"
| "overlaid m (r # rs) = overlaid (m ++ r) rs"

text \<open>The result mapping of the pass at index \<open>k\<close> in a call of the runner. The passes
  before it have run synchronously to an environment and the pass is called on it: its
  result mapping is the own fields of the value it returns, as they are when it returns.
  A result that is absent (\<^verbatim>\<open>undefined\<close>, \<^verbatim>\<open>null\<close>) or otherwise falsy has no field.\<close>

definition result_mapping :: "host \<Rightarrow> pass list \<Rightarrow> jsval \<Rightarrow> heap \<Rightarrow> nat \<Rightarrow> fields" where
  "result_mapping H ps input h k =
     (case runner H (take k ps) input h of
        (Value env, h1) \<Rightarrow>
          (case (ps ! k) env h1 of
             (Return out, h2) \<Rightarrow> spread_or h2 out
           | (Throw e, h2) \<Rightarrow> Map.empty)
      | (Raised e, h1) \<Rightarrow> Map.empty
      | (Handle s, h1) \<Rightarrow> Map.empty)"

text \<open>A notion of the spec (section 4.2, steps 3 to 7), to compare the code with: the
  environment merged through the passes, in order. Each pass is called on the environment merged so far;
  what it returns is awaited (an immediate value is already resolved); the own fields of
  the resolved value are overlaid on the own fields of that environment, as they are
  then, in a new environment. A pass that throws, and a result that rejects, end the
  merge with the failure; a result that never settles leaves it pending.\<close>

fun merged_through :: "host \<Rightarrow> pass list \<Rightarrow> jsval \<Rightarrow> heap \<Rightarrow> settled \<times> heap" where
  "merged_through H [] env h = (Fulfilled env, h)"
| "merged_through H (p # ps) env h =
     (case p env h of
        (Throw e, h1) \<Rightarrow> (Rejected e, h1)
      | (Return out, h1) \<Rightarrow>
          (case Promise_resolve H out h1 of
             (Fulfilled w, h2) \<Rightarrow>
               merged_through H ps (Ref (length h2))
                 (h2 @ [plain (spread h2 env ++ spread_or h2 w)])
           | (Rejected e, h2) \<Rightarrow> (Rejected e, h2)
           | (Pending, h2) \<Rightarrow> (Pending, h2)))"

text \<open>The final environment of a call of the runner: the merge through all the passes,
  from a new object with the own fields of the input.\<close>

definition final_environment :: "host \<Rightarrow> pass list \<Rightarrow> jsval \<Rightarrow> heap \<Rightarrow> settled \<times> heap" where
  "final_environment H ps input h =
     merged_through H ps (Ref (length h)) (h @ [plain (spread_or h input)])"

text \<open>A pass that never returns a thenable, and one that always does.\<close>

definition immediate :: "pass \<Rightarrow> bool" where
  "immediate p \<longleftrightarrow> (\<forall>env h out h1. p env h = (Return out, h1) \<longrightarrow> \<not> isThenable h1 out)"

definition deferring :: "pass \<Rightarrow> bool" where
  "deferring p \<longleftrightarrow> (\<forall>env h out h1. p env h = (Return out, h1) \<longrightarrow> isThenable h1 out)"

text \<open>The objects at the first \<open>n\<close> addresses of \<open>h\<close> are still there in \<open>h'\<close>, as they were.\<close>

definition untouched :: "nat \<Rightarrow> heap \<Rightarrow> heap \<Rightarrow> bool" where
  "untouched n h h' \<longleftrightarrow> n \<le> length h' \<and> (\<forall>b<n. h' ! b = h ! b)"

text \<open>A pass that writes to no object but the environment it is handed (it may allocate).\<close>

definition writes_only_env :: "pass \<Rightarrow> bool" where
  "writes_only_env p \<longleftrightarrow>
     (\<forall>a h r h'. p (Ref a) h = (r, h') \<longrightarrow>
        length h \<le> length h' \<and> (\<forall>b<length h. b \<noteq> a \<longrightarrow> h' ! b = h ! b))"

text \<open>A function whose behaviour does not depend on its receiver \<^verbatim>\<open>this\<close>.\<close>

definition ignores_receiver :: "host \<Rightarrow> fid \<Rightarrow> bool" where
  "ignores_receiver H c \<longleftrightarrow> (\<forall>this this' arg h. call H c this arg h = call H c this' arg h)"

text \<open>In the heap, the object at \<open>ob\<close> is the capability object \<^verbatim>\<open>{ run: f }\<close> of the
  function at \<open>f\<close>, whose code is \<open>c\<close>.\<close>

definition capability :: "addr \<Rightarrow> addr \<Rightarrow> fid \<Rightarrow> heap \<Rightarrow> bool" where
  "capability ob f c h \<longleftrightarrow>
     callee (deref h ob) = None \<and> get h (Ref ob) ''run'' = Ref f \<and> callee (deref h f) = Some c"

text \<open>A pass, and the settling of thenables, under which a property of the heap stays.\<close>

definition keeps :: "(heap \<Rightarrow> bool) \<Rightarrow> pass \<Rightarrow> bool" where
  "keeps I p \<longleftrightarrow> (\<forall>env h r h'. I h \<and> p env h = (r, h') \<longrightarrow> I h')"

definition await_keeps :: "(heap \<Rightarrow> bool) \<Rightarrow> host \<Rightarrow> bool" where
  "await_keeps I H \<longleftrightarrow> (\<forall>v h s h'. I h \<and> await H v h = (s, h') \<longrightarrow> I h')"

text \<open>Two passes that agree on the heaps where \<open>I\<close> holds, the first keeping \<open>I\<close>.\<close>

definition agree :: "(heap \<Rightarrow> bool) \<Rightarrow> pass \<Rightarrow> pass \<Rightarrow> bool" where
  "agree I p q \<longleftrightarrow> (\<forall>env h. I h \<longrightarrow> p env h = q env h) \<and> keeps I p"

section \<open>Concrete heaps, passes and hosts\<close>

text \<open>A function object with code \<open>c\<close> and no property of its own; a pass that
  returns a new object literal with the properties \<open>m\<close>; a host whose functions
  return \<^verbatim>\<open>undefined\<close> and whose thenables never settle.\<close>

definition fn_obj :: "fid \<Rightarrow> obj" where
  "fn_obj c = \<lparr>own_props = Map.empty, proto_props = Map.empty, callee = Some c\<rparr>"

definition returning :: "(string \<rightharpoonup> jsval) \<Rightarrow> pass" where
  "returning m env h = (case alloc (plain m) h of (v, h1) \<Rightarrow> (Return v, h1))"

definition idle :: host where
  "idle = \<lparr>call = (\<lambda>f this arg h. (Return Undefined, h)), await = (\<lambda>v h. (Pending, h))\<rparr>"

text \<open>A host whose functions return the number of their code.\<close>

definition tagging :: host where
  "tagging = \<lparr>call = (\<lambda>f this arg h. (Return (Num (int f)), h)), await = (\<lambda>v h. (Pending, h))\<rparr>"

definition throwing :: "exn \<Rightarrow> pass" where
  "throwing e env h = (Throw e, h)"

text \<open>A pass that returns a new promise-like object: its \<^verbatim>\<open>then\<close> is found through the
  prototype, and its own property \<^verbatim>\<open>value\<close> or \<^verbatim>\<open>reason\<close> holds what it settles with.\<close>

definition thenable_obj :: "string \<Rightarrow> jsval \<Rightarrow> addr \<Rightarrow> obj" where
  "thenable_obj k v f = \<lparr>own_props = [k \<mapsto> v], proto_props = [''then'' \<mapsto> Ref f], callee = None\<rparr>"

definition resolving :: "(string \<rightharpoonup> jsval) \<Rightarrow> pass" where
  "resolving m env h =
     (Return (Ref (length h + 2)),
      h @ [plain m, fn_obj 0, thenable_obj ''value'' (Ref (length h)) (length h + 1)])"

definition rejecting :: "jsval \<Rightarrow> pass" where
  "rejecting e env h =
     (Return (Ref (length h + 1)), h @ [fn_obj 0, thenable_obj ''reason'' e (length h)])"

text \<open>A host whose thenables settle with their property \<^verbatim>\<open>reason\<close> or \<^verbatim>\<open>value\<close>, and
  whose functions return their receiver.\<close>

definition settling :: host where
  "settling =
     \<lparr>call = (\<lambda>f this arg h. (Return this, h)),
      await = (\<lambda>v h.
        case spread h v ''reason'' of
          Some e \<Rightarrow> (Rejected (Thrown e), h)
        | None \<Rightarrow>
            (case spread h v ''value'' of
               Some w \<Rightarrow> if isThenable h w then (Pending, h) else (Fulfilled w, h)
             | None \<Rightarrow> (Pending, h)))\<rparr>"

text \<open>A capability object that is itself promise-like: \<^verbatim>\<open>run\<close> and \<^verbatim>\<open>then\<close> are found
  through its prototype, and it settles with its property \<^verbatim>\<open>value\<close>.\<close>

definition heap0 :: heap where
  "heap0 = [fn_obj 0,
            \<lparr>own_props = [''value'' \<mapsto> Ref 2],
             proto_props = [''run'' \<mapsto> Ref 0, ''then'' \<mapsto> Ref 0], callee = None\<rparr>,
            plain [''a'' \<mapsto> Num 1]]"

text \<open>A pass that returns a new object literal whose fields are computed from the own
  fields of the environment, and one that returns a new promise-like object settling
  with such an object.\<close>

definition computing :: "(fields \<Rightarrow> fields) \<Rightarrow> pass" where
  "computing g env h = returning (g (spread h env)) env h"

definition resolving_with :: "(fields \<Rightarrow> fields) \<Rightarrow> pass" where
  "resolving_with g env h = resolving (g (spread h env)) env h"

definition b_from_a :: "fields \<Rightarrow> fields" where
  "b_from_a m = [''b'' \<mapsto> (case m ''a'' of Some v \<Rightarrow> v | None \<Rightarrow> Undefined)]"

definition c_from_a_b :: "fields \<Rightarrow> fields" where
  "c_from_a_b m =
     [''c'' \<mapsto> (case (m ''a'', m ''b'') of (Some (Num x), Some (Num y)) \<Rightarrow> Num (x + y) | _ \<Rightarrow> Undefined)]"

definition a_is_1 :: "fields \<Rightarrow> fields" where
  "a_is_1 m = [''a'' \<mapsto> Num 1]"

text \<open>An input with a callable \<^verbatim>\<open>then\<close> of its own, which (under the host \<open>settling\<close>)
  resolves with the input's \<^verbatim>\<open>value\<close>.\<close>

definition hijack_heap :: heap where
  "hijack_heap =
     [fn_obj 0, plain [''hijacked'' \<mapsto> Bool True], plain [''then'' \<mapsto> Ref 0, ''value'' \<mapsto> Ref 1]]"

text \<open>A pass that writes to the environment it is handed: \<^verbatim>\<open>(env) => { env.seen = true }\<close>.\<close>

definition marking :: pass where
  "marking env h =
     (case env of
        Ref a \<Rightarrow> (Return Undefined, h[a := (h ! a)\<lparr>own_props := (own_props (h ! a))(''seen'' \<mapsto> Bool True)\<rparr>])
      | _ \<Rightarrow> (Return Undefined, h))"

text \<open>A host whose functions return a new object literal \<^verbatim>\<open>{ output: c }\<close>, \<open>c\<close> the number
  of their code.\<close>

definition producing :: host where
  "producing =
     \<lparr>call = (\<lambda>f this arg h. returning [''output'' \<mapsto> Num (int f)] arg h),
      await = (\<lambda>v h. (Pending, h))\<rparr>"

definition cap_heap :: heap where
  "cap_heap = [fn_obj 0, plain [''run'' \<mapsto> Ref 0]]"

text \<open>A pass that tells whether it has seen the environment it is handed before:
  \<^verbatim>\<open>(env) => { const again = "seen" in env; env.seen = true; return { again } }\<close>.\<close>

definition probing :: pass where
  "probing env h =
     (case env of
        Ref a \<Rightarrow>
          (Return (Ref (length h)),
           h[a := (h ! a)\<lparr>own_props := (own_props (h ! a))(''seen'' \<mapsto> Bool True)\<rparr>]
             @ [plain [''again'' \<mapsto> Bool (spread h env ''seen'' \<noteq> None)]])
      | _ \<Rightarrow> (Return Undefined, h))"

text \<open>A pass that returns a new object holding a new object:
  \<^verbatim>\<open>() => ({ inner: { x: 1 } })\<close>.\<close>

definition nesting :: pass where
  "nesting env h =
     (Return (Ref (Suc (length h))),
      h @ [plain [''x'' \<mapsto> Num 1], plain [''inner'' \<mapsto> Ref (length h)]])"

text \<open>The heap after a first call of the runner, with the passes \<^verbatim>\<open>async () => ({ a: 1 })\<close>
  and \<open>probing\<close>, on the input with a callable \<^verbatim>\<open>then\<close>.\<close>

definition after_first_run :: heap where
  "after_first_run = snd (runner settling [resolving_with a_is_1, probing] (Ref 2) hijack_heap)"

lemmas eval_defs = runner_def returning_def resolving_def rejecting_def throwing_def alloc_def
  spread_or_def isThenable_def deref_def plain_def merge_def thenable_obj_def fn_obj_def
  deferred_def chain_def Promise_then_def Promise_resolve_def settling_def


section \<open>Allocation\<close>

lemma deref_alloc [simp]: "deref (h @ [ob]) (length h) = ob"
  by (simp add: deref_def)

lemma deref_append [simp]: "a < length h \<Longrightarrow> deref (h @ hs) a = deref h a"
  by (simp add: deref_def nth_append)

lemma plain_sel [simp]:
  "own_props (plain m) = m" "proto_props (plain m) = Map.empty" "callee (plain m) = None"
  by (simp_all add: plain_def)

section \<open>Classification of values\<close>

lemma typeof_function_iff:
  "typeof h v = ''function'' \<longleftrightarrow> (\<exists>a. v = Ref a \<and> callee (deref h a) \<noteq> None)"
  by (cases v) auto

lemma typeof_object_iff:
  "typeof h v = ''object'' \<longleftrightarrow> v = Null \<or> (\<exists>a. v = Ref a \<and> callee (deref h a) = None)"
  by (cases v) auto

text \<open>
  Claim C4. A pass result is classified as deferred exactly when it is a reference (a
  non-null object or a callable value) whose property \<^verbatim>\<open>then\<close> is callable; every
  other value, \<^verbatim>\<open>null\<close> and the primitives among them, is immediate. Consequently a
  pass that returns a plain object literal \<open>plain m\<close> whose \<^verbatim>\<open>then\<close> happens to be a
  function makes the runner switch: it returns a promise.
\<close>

theorem isThenable_duck_typed:
  "(isThenable h v \<longleftrightarrow>
      (\<exists>a b. v = Ref a \<and> get h (Ref a) ''then'' = Ref b \<and> callee (deref h b) \<noteq> None)) \<and>
   (pass (Ref (length h)) (h @ [plain (spread_or h input)]) = (Return (Ref a), h1) \<and>
    deref h1 a = plain m \<and> m ''then'' = Some (Ref b) \<and> callee (deref h1 b) \<noteq> None \<longrightarrow>
      (\<exists>s h2. runner H (pass # rest) input h = (Handle s, h2)))"
proof (intro conjI impI)
  show "isThenable h v \<longleftrightarrow>
      (\<exists>a b. v = Ref a \<and> get h (Ref a) ''then'' = Ref b \<and> callee (deref h b) \<noteq> None)"
    unfolding isThenable_def typeof_function_iff typeof_object_iff
    by (cases v) auto
next
  assume a: "pass (Ref (length h)) (h @ [plain (spread_or h input)]) = (Return (Ref a), h1) \<and>
    deref h1 a = plain m \<and> m ''then'' = Some (Ref b) \<and> callee (deref h1 b) \<noteq> None"
  then have "isThenable h1 (Ref a)"
    by (auto simp: isThenable_def plain_def)
  with a show "\<exists>s h2. runner H (pass # rest) input h = (Handle s, h2)"
    by (auto simp: runner_def alloc_def split: prod.splits)
qed

theorem isThenable_duck_typed_witness:
  "\<exists>s h2. runner idle [returning [''then'' \<mapsto> Ref 0]] Undefined [fn_obj 7] = (Handle s, h2)"
  using isThenable_duck_typed [of "[fn_obj 7]" Undefined "returning [''then'' \<mapsto> Ref 0]"
      Undefined 2 "[fn_obj 7, plain Map.empty, plain [''then'' \<mapsto> Ref 0]]"
      "[''then'' \<mapsto> Ref 0]" 0 idle "[]"]
  by (simp add: returning_def alloc_def deref_def spread_or_def fn_obj_def)

section \<open>Normalisation of a pass\<close>

text \<open>
  Claim C10. When the registered value is callable, the stored closure calls the value
  itself on the environment (as a plain call, without receiver), whatever properties the
  value has, a callable \<^verbatim>\<open>run\<close> included; \<^verbatim>\<open>run\<close> is called, on the value as receiver,
  only when the value is not callable.
\<close>

theorem wrapper_prefers_callable:
  "(callee (deref h a) = Some c \<longrightarrow> wrapper H (Ref a) env h = call H c Undefined env h) \<and>
   (typeof h fn \<noteq> ''function'' \<and> truthy fn \<and> get h fn ''run'' = Ref r \<and>
    callee (deref h r) = Some c' \<longrightarrow> wrapper H fn env h = call H c' fn env h)"
  by (simp add: wrapper_def invoke_def)

theorem wrapper_prefers_callable_witness:
  "wrapper tagging (Ref 1) Undefined
     [fn_obj 1, \<lparr>own_props = [''run'' \<mapsto> Ref 0], proto_props = Map.empty, callee = Some 2\<rparr>]
   = (Return (Num 2),
     [fn_obj 1, \<lparr>own_props = [''run'' \<mapsto> Ref 0], proto_props = Map.empty, callee = Some 2\<rparr>]) \<and>
   wrapper tagging (Ref 1) Undefined [fn_obj 1, plain [''run'' \<mapsto> Ref 0]]
   = (Return (Num 1), [fn_obj 1, plain [''run'' \<mapsto> Ref 0]])"
  using wrapper_prefers_callable [of
      "[fn_obj 1, \<lparr>own_props = [''run'' \<mapsto> Ref 0], proto_props = Map.empty, callee = Some 2\<rparr>]"
      1 2 tagging Undefined "Ref 1" 0 1]
    wrapper_prefers_callable [of "[fn_obj 1, plain [''run'' \<mapsto> Ref 0]]"
      0 1 tagging Undefined "Ref 1" 0 1]
  by (simp add: deref_def fn_obj_def plain_def tagging_def)

section \<open>Promises: settled promises and chains\<close>

lemma Promise_then_Rejected:
  "p h = (Rejected e, h1) \<Longrightarrow> Promise_then H p cb h = (Rejected e, h1)"
  by (simp add: Promise_then_def)

lemma Promise_then_Pending:
  "p h = (Pending, h1) \<Longrightarrow> Promise_then H p cb h = (Pending, h1)"
  by (simp add: Promise_then_def)

lemma Promise_then_cong:
  "p h = p' h' \<Longrightarrow> Promise_then H p cb h = Promise_then H p' cb h'"
  by (simp add: Promise_then_def)

lemma chain_cong: "p h = p' h' \<Longrightarrow> chain H p q h = chain H p' q h'"
  unfolding chain_def by (rule Promise_then_cong)

lemma foldl_chain_cong:
  "p h = p' h' \<Longrightarrow> foldl (chain H) p qs h = foldl (chain H) p' qs h'"
proof (induction qs arbitrary: p p')
  case Nil
  then show ?case by simp
next
  case (Cons q qs)
  have "chain H p q h = chain H p' q h'"
    using Cons.prems by (rule chain_cong)
  then show ?case
    using Cons.IH by simp
qed

lemma chain_Rejected: "p h = (Rejected e, h1) \<Longrightarrow> chain H p q h = (Rejected e, h1)"
  unfolding chain_def by (rule Promise_then_Rejected)

lemma chain_Pending: "p h = (Pending, h1) \<Longrightarrow> chain H p q h = (Pending, h1)"
  unfolding chain_def by (rule Promise_then_Pending)

lemma foldl_chain_Rejected:
  "p h = (Rejected e, h1) \<Longrightarrow> foldl (chain H) p qs h = (Rejected e, h1)"
  by (induction qs arbitrary: p) (simp_all add: chain_Rejected)

lemma foldl_chain_Pending:
  "p h = (Pending, h1) \<Longrightarrow> foldl (chain H) p qs h = (Pending, h1)"
  by (induction qs arbitrary: p) (simp_all add: chain_Pending)

lemma chain_Fulfilled:
  "P h = (Fulfilled env, h1) \<Longrightarrow>
   chain H P q h =
     (case q env h1 of
        (Throw e, h2) \<Rightarrow> (Rejected e, h2)
      | (Return maybe, h2) \<Rightarrow>
          (case Promise_resolve H maybe h2 of
             (Fulfilled r, h3) \<Rightarrow>
               Promise_resolve H (Ref (length h3)) (h3 @ [plain (spread h3 env ++ spread_or h3 r)])
           | (Rejected e, h3) \<Rightarrow> (Rejected e, h3)
           | (Pending, h3) \<Rightarrow> (Pending, h3)))"
  by (simp add: chain_def Promise_then_def merge_def alloc_def
           split: prod.splits outcome.splits settled.splits)

lemma deferred_unfold:
  "deferred H env out rest h1 =
     (case Promise_resolve H out h1 of
        (Fulfilled w, h2) \<Rightarrow>
          Promise_then H (foldl (chain H) (Promise_resolve H (Ref (length h2))) rest)
            (\<lambda>finalEnv h. (CbValue finalEnv, h)) (h2 @ [plain (spread h2 env ++ spread_or h2 w)])
      | (Rejected e, h2) \<Rightarrow> (Rejected e, h2)
      | (Pending, h2) \<Rightarrow> (Pending, h2))"
  by (simp add: deferred_def Promise_then_def [of H "Promise_resolve H out"] merge_def alloc_def
           split: prod.splits settled.splits)

lemma finish_unfold:
  "Promise_then H P (\<lambda>finalEnv h. (CbValue finalEnv, h)) h =
     (case P h of
        (Fulfilled v, h1) \<Rightarrow> Promise_resolve H v h1
      | (Rejected e, h1) \<Rightarrow> (Rejected e, h1)
      | (Pending, h1) \<Rightarrow> (Pending, h1))"
  by (simp add: Promise_then_def split: prod.splits settled.splits)

lemma fulfils_plain_resolve: "wf_host H \<Longrightarrow> fulfils_plain (Promise_resolve H v)"
  by (auto simp: wf_host_def fulfils_plain_def Promise_resolve_def split: if_splits)

lemma fulfils_plain_then_value:
  assumes "wf_host H"
  shows "fulfils_plain (Promise_then H p (\<lambda>v h. case f v h of (r, h') \<Rightarrow> (CbValue r, h')))"
  using fulfils_plain_resolve [OF assms]
  by (auto simp: fulfils_plain_def Promise_then_def split: prod.splits settled.splits)

lemma fulfils_plain_chain:
  assumes "wf_host H"
  shows "fulfils_plain (chain H p q)"
proof -
  have inner: "\<And>e m. fulfils_plain (Promise_then H (Promise_resolve H m)
              (\<lambda>r h2. case merge e r h2 of (v, h3) \<Rightarrow> (CbValue v, h3)))"
    by (rule fulfils_plain_then_value [OF assms])
  show ?thesis
    unfolding fulfils_plain_def chain_def Promise_then_def [of H p]
    using inner
    by (auto simp: fulfils_plain_def split: prod.splits settled.splits outcome.splits)
qed

lemma fulfils_plain_foldl:
  "wf_host H \<Longrightarrow> fulfils_plain p \<Longrightarrow> fulfils_plain (foldl (chain H) p qs)"
  by (induction qs rule: rev_induct) (simp_all add: fulfils_plain_chain)

lemma finish_plain:
  "fulfils_plain p \<Longrightarrow> Promise_then H p (\<lambda>finalEnv h2. (CbValue finalEnv, h2)) h = p h"
  by (auto simp: fulfils_plain_def Promise_then_def Promise_resolve_def
           split: prod.splits settled.splits)

lemma deferred_append:
  assumes wf: "wf_host H" and d: "deferred H env out rest h = (Fulfilled v, h1)"
  shows "deferred H env out (rest @ qs) h = resume H v qs h1"
proof -
  obtain s h2 where r: "Promise_resolve H out h = (s, h2)"
    by (cases "Promise_resolve H out h")
  with d obtain w where s: "s = Fulfilled w"
    by (cases s) (auto simp: deferred_def Promise_then_def)
  obtain env' h3 where m: "merge env w h2 = (env', h3)"
    by (cases "merge env w h2")
  let ?P = "foldl (chain H) (Promise_resolve H env') rest"
  have plain: "fulfils_plain ?P"
    by (intro fulfils_plain_foldl fulfils_plain_resolve wf)
  have "deferred H env out rest h =
      Promise_then H ?P (\<lambda>finalEnv h2. (CbValue finalEnv, h2)) h3"
    using r s m by (simp add: deferred_def Promise_then_def [of H "Promise_resolve H out"])
  then have P: "?P h3 = (Fulfilled v, h1)"
    using d finish_plain [OF plain] by simp
  have "deferred H env out (rest @ qs) h =
      Promise_then H (foldl (chain H) ?P qs) (\<lambda>finalEnv h2. (CbValue finalEnv, h2)) h3"
    using r s m by (simp add: deferred_def Promise_then_def [of H "Promise_resolve H out"])
  also have "\<dots> = resume H v qs h1"
    unfolding resume_def
    by (intro Promise_then_cong foldl_chain_cong) (simp add: P)
  finally show ?thesis .
qed

lemma sync_loop_append_Handle:
  "wf_host H \<Longrightarrow> sync_loop H ps env h = (Handle (Fulfilled v), h1) \<Longrightarrow>
   sync_loop H (ps @ qs) env h = (case resume H v qs h1 of (s, h2) \<Rightarrow> (Handle s, h2))"
  by (induction H ps env h rule: sync_loop.induct)
     (auto simp: deferred_append split: prod.splits outcome.splits if_splits)

lemma runner_append_Handle:
  "wf_host H \<Longrightarrow> runner H ps input h = (Handle (Fulfilled v), h1) \<Longrightarrow>
   runner H (ps @ qs) input h = (case resume H v qs h1 of (s, h2) \<Rightarrow> (Handle s, h2))"
  by (auto simp: runner_def sync_loop_append_Handle split: prod.splits)

lemma resume_Throw:
  "q v h1 = (Throw e, h2) \<Longrightarrow> resume H v (q # qs) h1 = (Rejected e, h2)"
  unfolding resume_def
  by (intro Promise_then_Rejected) (simp add: foldl_chain_Rejected chain_def Promise_then_def)

lemma resume_Return_rejects:
  "q v h1 = (Return out, h2) \<Longrightarrow> isThenable h2 out \<Longrightarrow> await H out h2 = (Rejected e, h3) \<Longrightarrow>
   resume H v (q # qs) h1 = (Rejected e, h3)"
  unfolding resume_def
  by (intro Promise_then_Rejected)
     (simp add: foldl_chain_Rejected chain_def Promise_then_def Promise_resolve_def)

lemma sync_loop_Cons_rejects:
  "p env h1 = (Return out, h2) \<Longrightarrow> isThenable h2 out \<Longrightarrow> await H out h2 = (Rejected e, h3) \<Longrightarrow>
   sync_loop H (p # qs) env h1 = (Handle (Rejected e), h3)"
  by (simp add: deferred_def Promise_then_def Promise_resolve_def)


section \<open>The builder and the loop\<close>

lemma register_all_eq:
  "passes_of b < length A \<Longrightarrow>
   register_all H fns b A = (b, A[passes_of b := A ! passes_of b @ map (wrapper H) fns])"
proof (induction fns arbitrary: A)
  case Nil
  then show ?case by (simp add: register_all_def)
next
  case (Cons fn fns)
  let ?A = "A[passes_of b := A ! passes_of b @ [wrapper H fn]]"
  have "register_all H (fn # fns) b A = register_all H fns b ?A"
    by (simp add: register_all_def addPass_def)
  also have "\<dots> = (b, ?A[passes_of b := ?A ! passes_of b @ map (wrapper H) fns])"
    using Cons.prems by (intro Cons.IH) simp
  finally show ?case
    using Cons.prems by simp
qed

lemma built_eq:
  "built H fns A = (RunnerFn (Suc (length A)), A @ [map (wrapper H) fns, map (wrapper H) fns])"
proof -
  have "register_all H fns (PipelineBuilder (length A)) (A @ [[]])
      = (PipelineBuilder (length A), A @ [map (wrapper H) fns])"
    by (subst register_all_eq) simp_all
  then show ?thesis
    by (simp add: built_def pipeline_def build_def nth_append)
qed

lemma run_built:
  "built H fns A = (r, A') \<Longrightarrow> run H r A' input h = runner H (map (wrapper H) fns) input h"
  by (auto simp: built_eq run_def nth_append)

lemma sync_loop_append_Value:
  "sync_loop H ps env h = (Value env', h') \<Longrightarrow>
   sync_loop H (ps @ qs) env h = sync_loop H qs env' h'"
  by (induction H ps env h rule: sync_loop.induct)
     (auto split: prod.splits outcome.splits if_splits)

lemma sync_loop_append_Raised:
  "sync_loop H ps env h = (Raised e, h') \<Longrightarrow> sync_loop H (ps @ qs) env h = (Raised e, h')"
  by (induction H ps env h rule: sync_loop.induct)
     (auto split: prod.splits outcome.splits if_splits)

lemma runner_append_Value:
  "runner H ps input h = (Value env', h') \<Longrightarrow>
   runner H (ps @ qs) input h = sync_loop H qs env' h'"
  by (auto simp: runner_def sync_loop_append_Value split: prod.splits)

lemma runner_append_Raised:
  "runner H ps input h = (Raised e, h') \<Longrightarrow> runner H (ps @ qs) input h = (Raised e, h')"
  by (auto simp: runner_def sync_loop_append_Raised split: prod.splits)

lemma wrapper_invalid:
  "invalid_pass h fn \<Longrightarrow>
   wrapper H fn env h =
     (Throw (TypeError ''addPass expects a function or an object with a run(env) method''), h)"
  by (auto simp: wrapper_def invalid_pass_def)


lemma wf_host_settling: "wf_host settling"
  by (auto simp: wf_host_def settling_def split: option.splits if_splits)

section \<open>Failures\<close>

text \<open>
  Claim C5. Let the passes \<open>ps\<close> be followed by a pass \<open>p\<close> and any passes \<open>qs\<close>.
  If \<open>ps\<close> complete synchronously and \<open>p\<close> then throws, the call of the runner raises
  that exception. If \<open>p\<close> instead returns a deferred value that rejects, or if the run
  has switched within \<open>ps\<close> and \<open>p\<close> then throws or returns a deferred value that rejects,
  the runner returns a promise that rejects for that reason. In each case the result is
  no environment, and the final heap is the heap the failure left: it does not depend on
  \<open>qs\<close>, so no later pass has run.
\<close>

theorem failure_propagation:
  "(runner H ps input h = (Value env, h1) \<and> p env h1 = (Throw e, h2) \<longrightarrow>
      runner H (ps @ p # qs) input h = (Raised e, h2)) \<and>
   (runner H ps input h = (Value env, h1) \<and> p env h1 = (Return out, h2) \<and>
    isThenable h2 out \<and> await H out h2 = (Rejected e, h3) \<longrightarrow>
      runner H (ps @ p # qs) input h = (Handle (Rejected e), h3)) \<and>
   (wf_host H \<and> runner H ps input h = (Handle (Fulfilled env), h1) \<and>
    p env h1 = (Throw e, h2) \<longrightarrow>
      runner H (ps @ p # qs) input h = (Handle (Rejected e), h2)) \<and>
   (wf_host H \<and> runner H ps input h = (Handle (Fulfilled env), h1) \<and>
    p env h1 = (Return out, h2) \<and> isThenable h2 out \<and> await H out h2 = (Rejected e, h3) \<longrightarrow>
      runner H (ps @ p # qs) input h = (Handle (Rejected e), h3))"
proof (intro conjI impI)
  assume "runner H ps input h = (Value env, h1) \<and> p env h1 = (Throw e, h2)"
  then show "runner H (ps @ p # qs) input h = (Raised e, h2)"
    by (simp add: runner_append_Value)
next
  assume "runner H ps input h = (Value env, h1) \<and> p env h1 = (Return out, h2) \<and>
    isThenable h2 out \<and> await H out h2 = (Rejected e, h3)"
  then show "runner H (ps @ p # qs) input h = (Handle (Rejected e), h3)"
    by (simp add: runner_append_Value sync_loop_Cons_rejects del: sync_loop.simps)
next
  assume "wf_host H \<and> runner H ps input h = (Handle (Fulfilled env), h1) \<and>
    p env h1 = (Throw e, h2)"
  then show "runner H (ps @ p # qs) input h = (Handle (Rejected e), h2)"
    by (simp add: runner_append_Handle resume_Throw)
next
  assume "wf_host H \<and> runner H ps input h = (Handle (Fulfilled env), h1) \<and>
    p env h1 = (Return out, h2) \<and> isThenable h2 out \<and> await H out h2 = (Rejected e, h3)"
  then show "runner H (ps @ p # qs) input h = (Handle (Rejected e), h3)"
    by (simp add: runner_append_Handle resume_Return_rejects)
qed


theorem failure_propagation_witness:
  "runner settling ([] @ throwing (Thrown (Str ''boom'')) # [returning [''x'' \<mapsto> Num 1]]) Undefined []
     = (Raised (Thrown (Str ''boom'')), [plain Map.empty]) \<and>
   runner settling ([] @ rejecting (Str ''boom'') # [returning [''x'' \<mapsto> Num 1]]) Undefined []
     = (Handle (Rejected (Thrown (Str ''boom''))),
        [plain Map.empty, fn_obj 0, thenable_obj ''reason'' (Str ''boom'') 1]) \<and>
   runner settling ([resolving [''a'' \<mapsto> Num 1]] @ throwing (Thrown (Str ''boom'')) #
       [returning [''x'' \<mapsto> Num 1]]) Undefined []
     = (Handle (Rejected (Thrown (Str ''boom''))),
        [plain Map.empty, plain [''a'' \<mapsto> Num 1], fn_obj 0, thenable_obj ''value'' (Ref 1) 2,
         plain [''a'' \<mapsto> Num 1]]) \<and>
   runner settling ([resolving [''a'' \<mapsto> Num 1]] @ rejecting (Str ''boom'') #
       [returning [''x'' \<mapsto> Num 1]]) Undefined []
     = (Handle (Rejected (Thrown (Str ''boom''))),
        [plain Map.empty, plain [''a'' \<mapsto> Num 1], fn_obj 0, thenable_obj ''value'' (Ref 1) 2,
         plain [''a'' \<mapsto> Num 1], fn_obj 0, thenable_obj ''reason'' (Str ''boom'') 5])"
proof -
  let ?boom = "Thrown (Str ''boom'')"
  let ?h1 = "[plain Map.empty]"
  let ?h4 = "[plain Map.empty, plain [''a'' \<mapsto> Num 1], fn_obj 0,
              thenable_obj ''value'' (Ref 1) 2, plain [''a'' \<mapsto> Num 1]]"
  have sync: "runner settling [] Undefined [] = (Value (Ref 0), ?h1)"
    by (simp add: eval_defs)
  have async: "runner settling [resolving [''a'' \<mapsto> Num 1]] Undefined []
      = (Handle (Fulfilled (Ref 4)), ?h4)"
    by (simp add: eval_defs eval_nat_numeral)
  have rej1: "rejecting (Str ''boom'') (Ref 0) ?h1
      = (Return (Ref 2), ?h1 @ [fn_obj 0, thenable_obj ''reason'' (Str ''boom'') 1])"
    by (simp add: eval_defs eval_nat_numeral)
  have rej4: "rejecting (Str ''boom'') (Ref 4) ?h4
      = (Return (Ref 6), ?h4 @ [fn_obj 0, thenable_obj ''reason'' (Str ''boom'') 5])"
    by (simp add: eval_defs eval_nat_numeral)
  have then1: "isThenable (?h1 @ [fn_obj 0, thenable_obj ''reason'' (Str ''boom'') 1]) (Ref 2)"
    by (simp add: eval_defs eval_nat_numeral)
  have then4: "isThenable (?h4 @ [fn_obj 0, thenable_obj ''reason'' (Str ''boom'') 5]) (Ref 6)"
    by (simp add: eval_defs eval_nat_numeral)
  have aw1: "await settling (Ref 2) (?h1 @ [fn_obj 0, thenable_obj ''reason'' (Str ''boom'') 1])
      = (Rejected ?boom, ?h1 @ [fn_obj 0, thenable_obj ''reason'' (Str ''boom'') 1])"
    by (simp add: eval_defs eval_nat_numeral)
  have aw4: "await settling (Ref 6) (?h4 @ [fn_obj 0, thenable_obj ''reason'' (Str ''boom'') 5])
      = (Rejected ?boom, ?h4 @ [fn_obj 0, thenable_obj ''reason'' (Str ''boom'') 5])"
    by (simp add: eval_defs eval_nat_numeral)
  note fp = failure_propagation [where H = settling and input = Undefined and h = "[]"
      and qs = "[returning [''x'' \<mapsto> Num 1]]" and e = ?boom]
  have a: "runner settling ([] @ throwing ?boom # [returning [''x'' \<mapsto> Num 1]]) Undefined []
      = (Raised ?boom, ?h1)"
    using fp [where ps = "[]" and p = "throwing ?boom" and env = "Ref 0" and ?h1.0 = ?h1
        and ?h2.0 = ?h1] sync
    by (simp add: throwing_def)
  have b: "runner settling ([] @ rejecting (Str ''boom'') # [returning [''x'' \<mapsto> Num 1]]) Undefined []
      = (Handle (Rejected ?boom), ?h1 @ [fn_obj 0, thenable_obj ''reason'' (Str ''boom'') 1])"
    using fp [where ps = "[]" and p = "rejecting (Str ''boom'')" and env = "Ref 0" and ?h1.0 = ?h1
        and out = "Ref 2" and ?h2.0 = "?h1 @ [fn_obj 0, thenable_obj ''reason'' (Str ''boom'') 1]"
        and ?h3.0 = "?h1 @ [fn_obj 0, thenable_obj ''reason'' (Str ''boom'') 1]"]
      sync rej1 then1 aw1
    by simp
  have c: "runner settling ([resolving [''a'' \<mapsto> Num 1]] @ throwing ?boom #
       [returning [''x'' \<mapsto> Num 1]]) Undefined [] = (Handle (Rejected ?boom), ?h4)"
    using fp [where ps = "[resolving [''a'' \<mapsto> Num 1]]" and p = "throwing ?boom"
        and env = "Ref 4" and ?h1.0 = ?h4 and ?h2.0 = ?h4] async wf_host_settling
    by (simp add: throwing_def)
  have d: "runner settling ([resolving [''a'' \<mapsto> Num 1]] @ rejecting (Str ''boom'') #
       [returning [''x'' \<mapsto> Num 1]]) Undefined []
      = (Handle (Rejected ?boom), ?h4 @ [fn_obj 0, thenable_obj ''reason'' (Str ''boom'') 5])"
    using fp [where ps = "[resolving [''a'' \<mapsto> Num 1]]" and p = "rejecting (Str ''boom'')"
        and env = "Ref 4" and ?h1.0 = ?h4 and out = "Ref 6"
        and ?h2.0 = "?h4 @ [fn_obj 0, thenable_obj ''reason'' (Str ''boom'') 5]"
        and ?h3.0 = "?h4 @ [fn_obj 0, thenable_obj ''reason'' (Str ''boom'') 5]"]
      async wf_host_settling rej4 then4 aw4
    by simp
  from a b c d show ?thesis by simp
qed


text \<open>
  Claim C6. Registration stores the closure for every value, without looking at it (the
  builder takes no heap), and \<^verbatim>\<open>build\<close> copies the array: neither can fail. When a run of
  the pipeline reaches a value that is neither callable nor an object with a callable
  \<^verbatim>\<open>run\<close>, the \<^verbatim>\<open>TypeError\<close> of line 86 is raised there: thrown by the call of the runner
  when the passes before it completed synchronously, the rejection of the returned
  promise when the run had switched.
\<close>

theorem invalid_pass_raises_when_reached:
  "(passes_of b < length A \<longrightarrow>
      (\<exists>A'. addPass H fn b A = (b, A') \<and> A' ! passes_of b = A ! passes_of b @ [wrapper H fn])) \<and>
   (built H (fns @ fn # gns) A = (r, A') \<and>
    runner H (map (wrapper H) fns) input h = (Value env, h1) \<and> invalid_pass h1 fn \<longrightarrow>
      run H r A' input h =
        (Raised (TypeError ''addPass expects a function or an object with a run(env) method''), h1)) \<and>
   (built H (fns @ fn # gns) A = (r, A') \<and> wf_host H \<and>
    runner H (map (wrapper H) fns) input h = (Handle (Fulfilled env), h1) \<and> invalid_pass h1 fn \<longrightarrow>
      run H r A' input h =
        (Handle (Rejected (TypeError ''addPass expects a function or an object with a run(env) method'')), h1))"
proof (intro conjI impI)
  assume "passes_of b < length A"
  then show "\<exists>A'. addPass H fn b A = (b, A') \<and> A' ! passes_of b = A ! passes_of b @ [wrapper H fn]"
    by (simp add: addPass_def)
next
  assume a: "built H (fns @ fn # gns) A = (r, A') \<and>
    runner H (map (wrapper H) fns) input h = (Value env, h1) \<and> invalid_pass h1 fn"
  then have "run H r A' input h
      = runner H (map (wrapper H) fns @ wrapper H fn # map (wrapper H) gns) input h"
    using run_built [of H "fns @ fn # gns" A r A' input h] by simp
  also have "\<dots> = sync_loop H (wrapper H fn # map (wrapper H) gns) env h1"
    using a by (simp add: runner_append_Value)
  finally show "run H r A' input h =
      (Raised (TypeError ''addPass expects a function or an object with a run(env) method''), h1)"
    using a by (simp add: wrapper_invalid)
next
  assume a: "built H (fns @ fn # gns) A = (r, A') \<and> wf_host H \<and>
    runner H (map (wrapper H) fns) input h = (Handle (Fulfilled env), h1) \<and> invalid_pass h1 fn"
  then have "run H r A' input h
      = runner H (map (wrapper H) fns @ wrapper H fn # map (wrapper H) gns) input h"
    using run_built [of H "fns @ fn # gns" A r A' input h] by simp
  also have "\<dots> = (case resume H env (wrapper H fn # map (wrapper H) gns) h1 of
                    (s, h2) \<Rightarrow> (Handle s, h2))"
    using a by (simp add: runner_append_Handle)
  finally show "run H r A' input h =
      (Handle (Rejected (TypeError ''addPass expects a function or an object with a run(env) method'')), h1)"
    using a by (simp add: resume_Throw wrapper_invalid)
qed

theorem invalid_pass_raises_when_reached_witness:
  "(\<exists>A'. addPass settling (Num 5) (PipelineBuilder 0) [[]] = (PipelineBuilder 0, A') \<and>
      A' ! 0 = [[]] ! 0 @ [wrapper settling (Num 5)]) \<and>
   run settling (fst (built settling ([] @ Num 5 # [Ref 1]) []))
       (snd (built settling ([] @ Num 5 # [Ref 1]) [])) Undefined heap0
     = (Raised (TypeError ''addPass expects a function or an object with a run(env) method''),
        heap0 @ [plain Map.empty]) \<and>
   run settling (fst (built settling ([Ref 1] @ Null # [Ref 1]) []))
       (snd (built settling ([Ref 1] @ Null # [Ref 1]) [])) Undefined heap0
     = (Handle (Rejected (TypeError ''addPass expects a function or an object with a run(env) method'')),
        heap0 @ [plain Map.empty, plain [''a'' \<mapsto> Num 1]])"
proof -
  have sync: "runner settling (map (wrapper settling) []) Undefined heap0
      = (Value (Ref 3), heap0 @ [plain Map.empty])"
    by (simp add: eval_defs heap0_def)
  have async: "runner settling (map (wrapper settling) [Ref 1]) Undefined heap0
      = (Handle (Fulfilled (Ref 4)), heap0 @ [plain Map.empty, plain [''a'' \<mapsto> Num 1]])"
    by (simp add: eval_defs heap0_def wrapper_def invoke_def eval_nat_numeral)
  have bad5: "invalid_pass (heap0 @ [plain Map.empty]) (Num 5)"
    by (simp add: invalid_pass_def)
  have badNull: "invalid_pass (heap0 @ [plain Map.empty, plain [''a'' \<mapsto> Num 1]]) Null"
    by (simp add: invalid_pass_def)
  note inst = invalid_pass_raises_when_reached [where H = settling and input = Undefined
      and h = heap0 and A = "[]" and gns = "[Ref 1]"]
  have a: "\<exists>A'. addPass settling (Num 5) (PipelineBuilder 0) [[]] = (PipelineBuilder 0, A') \<and>
      A' ! 0 = [[]] ! 0 @ [wrapper settling (Num 5)]"
    using invalid_pass_raises_when_reached [where H = settling and b = "PipelineBuilder 0"
        and A = "[[]]" and fn = "Num 5"]
    by simp
  have b: "run settling (fst (built settling ([] @ Num 5 # [Ref 1]) []))
       (snd (built settling ([] @ Num 5 # [Ref 1]) [])) Undefined heap0
     = (Raised (TypeError ''addPass expects a function or an object with a run(env) method''),
        heap0 @ [plain Map.empty])"
    using inst [where fns = "[]" and fn = "Num 5" and env = "Ref 3"
        and ?h1.0 = "heap0 @ [plain Map.empty]"
        and r = "fst (built settling ([] @ Num 5 # [Ref 1]) [])"
        and A' = "snd (built settling ([] @ Num 5 # [Ref 1]) [])"] sync bad5
    by simp
  have c: "run settling (fst (built settling ([Ref 1] @ Null # [Ref 1]) []))
       (snd (built settling ([Ref 1] @ Null # [Ref 1]) [])) Undefined heap0
     = (Handle (Rejected (TypeError ''addPass expects a function or an object with a run(env) method'')),
        heap0 @ [plain Map.empty, plain [''a'' \<mapsto> Num 1]])"
    using inst [where fns = "[Ref 1]" and fn = Null and env = "Ref 4"
        and ?h1.0 = "heap0 @ [plain Map.empty, plain [''a'' \<mapsto> Num 1]]"
        and r = "fst (built settling ([Ref 1] @ Null # [Ref 1]) [])"
        and A' = "snd (built settling ([Ref 1] @ Null # [Ref 1]) [])"] async badNull
      wf_host_settling
    by simp
  from a b c show ?thesis by simp
qed

section \<open>Finalizing\<close>

lemma apply_ops_frame:
  "passes_of b < length A \<Longrightarrow> k < length A \<Longrightarrow> k \<noteq> passes_of b \<Longrightarrow>
   apply_ops H ops b A ! k = A ! k"
proof (induction ops arbitrary: A)
  case Nil
  then show ?case by simp
next
  case (Cons op ops)
  show ?case
  proof (cases op)
    case (AddPass fn)
    have "apply_ops H (op # ops) b A
        = apply_ops H ops b (A[passes_of b := A ! passes_of b @ [wrapper H fn]])"
      using AddPass by (simp add: addPass_def)
    also have "\<dots> ! k = (A[passes_of b := A ! passes_of b @ [wrapper H fn]]) ! k"
      using Cons.prems by (intro Cons.IH) simp_all
    finally show ?thesis
      using Cons.prems by simp
  next
    case Build
    have "apply_ops H (op # ops) b A = apply_ops H ops b (A @ [A ! passes_of b])"
      using Build by (simp add: build_def)
    also have "\<dots> ! k = (A @ [A ! passes_of b]) ! k"
      using Cons.prems by (intro Cons.IH) simp_all
    finally show ?thesis
      using Cons.prems by (simp add: nth_append)
  qed
qed

text \<open>
  Claim C7. A runner that \<^verbatim>\<open>build\<close> returned holds an array of its own, not the
  builder's. Whatever is done to the builder afterwards, registering passes and
  finalizing again in any order, that array still holds the passes registered when the
  runner was built, and a call of the runner executes exactly them.
\<close>

theorem built_runner_unaffected:
  "passes_of b < length A \<and> build b A = (r, A1) \<longrightarrow>
     captured r \<noteq> passes_of b \<and>
     apply_ops H ops b A1 ! captured r = A ! passes_of b \<and>
     run H r (apply_ops H ops b A1) input h = runner H (A ! passes_of b) input h"
proof
  assume a: "passes_of b < length A \<and> build b A = (r, A1)"
  then have r: "captured r = length A" and A1: "A1 = A @ [A ! passes_of b]"
    by (auto simp: build_def)
  have "apply_ops H ops b A1 ! captured r = A1 ! captured r"
    using a r A1 by (intro apply_ops_frame) simp_all
  then have "apply_ops H ops b A1 ! captured r = A ! passes_of b"
    using r A1 by simp
  then show "captured r \<noteq> passes_of b \<and>
     apply_ops H ops b A1 ! captured r = A ! passes_of b \<and>
     run H r (apply_ops H ops b A1) input h = runner H (A ! passes_of b) input h"
    using a r by (simp add: run_def)
qed

theorem built_runner_unaffected_witness:
  "captured (RunnerFn 1) \<noteq> passes_of (PipelineBuilder 0) \<and>
   apply_ops settling [AddPass (Ref 1), Build, AddPass Null] (PipelineBuilder 0)
       [[returning [''x'' \<mapsto> Num 1]], [returning [''x'' \<mapsto> Num 1]]] ! 1
     = [returning [''x'' \<mapsto> Num 1]] \<and>
   run settling (RunnerFn 1)
       (apply_ops settling [AddPass (Ref 1), Build, AddPass Null] (PipelineBuilder 0)
          [[returning [''x'' \<mapsto> Num 1]], [returning [''x'' \<mapsto> Num 1]]]) Undefined []
     = runner settling [returning [''x'' \<mapsto> Num 1]] Undefined []"
  using built_runner_unaffected [where b = "PipelineBuilder 0"
      and A = "[[returning [''x'' \<mapsto> Num 1]]]" and r = "RunnerFn 1"
      and ?A1.0 = "[[returning [''x'' \<mapsto> Num 1]], [returning [''x'' \<mapsto> Num 1]]]"
      and H = settling and ops = "[AddPass (Ref 1), Build, AddPass Null]" and input = Undefined
      and h = "[]"]
  by (simp add: build_def)


section \<open>The synchronous run\<close>

lemma runner_snoc_immediate:
  assumes "runner H ps input h = (Value env, h1)" and "p env h1 = (Return out, h2)"
    and "\<not> isThenable h2 out"
  shows "runner H (ps @ [p]) input h =
    (Value (Ref (length h2)), h2 @ [plain (spread h2 env ++ spread_or h2 out)])"
  using assms by (simp add: runner_append_Value merge_def alloc_def)

lemma not_thenable_plain:
  "m ''then'' = None \<Longrightarrow> \<not> isThenable (h @ [plain m]) (Ref (length h))"
  by (simp add: isThenable_def)

lemma computing_immediate: "(\<forall>m. g m ''then'' = None) \<Longrightarrow> immediate (computing g)"
  by (auto simp: immediate_def computing_def returning_def alloc_def not_thenable_plain)

lemma overlaid_snoc: "overlaid m (rs @ [r]) = overlaid m rs ++ r"
  by (induction rs arbitrary: m) simp_all

lemma result_mapping_append:
  "k < length ps \<Longrightarrow> result_mapping H (ps @ qs) input h k = result_mapping H ps input h k"
  by (auto simp: result_mapping_def nth_append split: prod.splits result.splits)

lemma map_result_mapping_append:
  "map (result_mapping H (ps @ qs) input h) [0..<length ps]
   = map (result_mapping H ps input h) [0..<length ps]"
  by (simp add: result_mapping_append)

text \<open>
  Claim C1, as the code has it. Let every pass of a call of the runner return an immediate
  mapping and leave the own fields of the environment it is handed as they are: whenever
  the passes before index \<open>k\<close> have run to an environment, the pass at \<open>k\<close> returns on it,
  the value it returns is not a thenable, and the environment has the same own fields
  after the pass as before. Then the call returns an environment whose own fields are the
  input's (none when no argument is passed), overlaid in registration order by the result
  mapping of each pass, the own fields of what the pass returned: a field of a later pass
  overwrites a same-named field of the input or of an earlier pass.
\<close>

theorem sync_run_overlays_results:
  "(\<forall>k env h1. k < length ps \<and> runner H (take k ps) input h = (Value env, h1) \<longrightarrow>
      (\<exists>out h2. (ps ! k) env h1 = (Return out, h2) \<and> \<not> isThenable h2 out \<and>
         spread h2 env = spread h1 env)) \<longrightarrow>
   (\<exists>env' h'. runner H ps input h = (Value env', h') \<and>
      spread h' env' =
        overlaid (spread_or h input) (map (result_mapping H ps input h) [0..<length ps]))"
proof (induction ps rule: rev_induct)
  case Nil
  show ?case
    by (simp add: runner_def alloc_def)
next
  case (snoc p ps)
  show ?case
  proof
    assume hyp: "\<forall>k env h1. k < length (ps @ [p]) \<and>
        runner H (take k (ps @ [p])) input h = (Value env, h1) \<longrightarrow>
        (\<exists>out h2. ((ps @ [p]) ! k) env h1 = (Return out, h2) \<and> \<not> isThenable h2 out \<and>
           spread h2 env = spread h1 env)"
    have "\<forall>k env h1. k < length ps \<and> runner H (take k ps) input h = (Value env, h1) \<longrightarrow>
        (\<exists>out h2. (ps ! k) env h1 = (Return out, h2) \<and> \<not> isThenable h2 out \<and>
           spread h2 env = spread h1 env)"
    proof (intro allI impI)
      fix k env h1
      assume a: "k < length ps \<and> runner H (take k ps) input h = (Value env, h1)"
      then have "k < length (ps @ [p]) \<and> runner H (take k (ps @ [p])) input h = (Value env, h1)"
        by simp
      with hyp have "\<exists>out h2. ((ps @ [p]) ! k) env h1 = (Return out, h2) \<and> \<not> isThenable h2 out \<and>
           spread h2 env = spread h1 env"
        by blast
      with a show "\<exists>out h2. (ps ! k) env h1 = (Return out, h2) \<and> \<not> isThenable h2 out \<and>
           spread h2 env = spread h1 env"
        by (simp add: nth_append)
    qed
    with snoc.IH obtain env h1 where
      r: "runner H ps input h = (Value env, h1)" and
      s: "spread h1 env =
        overlaid (spread_or h input) (map (result_mapping H ps input h) [0..<length ps])"
      by blast
    from hyp [rule_format, of "length ps" env h1] r obtain out h2 where
      p: "p env h1 = (Return out, h2)" and n: "\<not> isThenable h2 out" and
      e: "spread h2 env = spread h1 env"
      by auto
    have run: "runner H (ps @ [p]) input h =
        (Value (Ref (length h2)), h2 @ [plain (spread h2 env ++ spread_or h2 out)])"
      using r p n by (rule runner_snoc_immediate)
    have last: "result_mapping H (ps @ [p]) input h (length ps) = spread_or h2 out"
      using r p by (simp add: result_mapping_def)
    have "overlaid (spread_or h input)
        (map (result_mapping H (ps @ [p]) input h) [0..<length (ps @ [p])])
      = overlaid (spread_or h input) (map (result_mapping H ps input h) [0..<length ps])
          ++ spread_or h2 out"
      using last by (simp add: overlaid_snoc map_result_mapping_append)
    then show "\<exists>env' h'. runner H (ps @ [p]) input h = (Value env', h') \<and>
      spread h' env' =
        overlaid (spread_or h input)
          (map (result_mapping H (ps @ [p]) input h) [0..<length (ps @ [p])])"
      using run s e by simp
  qed
qed

theorem sync_run_overlays_results_witness:
  "(\<exists>env' h'. runner settling [computing b_from_a, computing c_from_a_b] (Ref 0)
        [plain [''a'' \<mapsto> Num 3]] = (Value env', h') \<and>
      spread h' env' = [''a'' \<mapsto> Num 3, ''b'' \<mapsto> Num 3, ''c'' \<mapsto> Num 6]) \<and>
   (\<exists>env' h'. runner settling [nesting] Undefined [] = (Value env', h') \<and>
      spread h' env' = [''inner'' \<mapsto> Ref 1])"
proof -
  let ?h = "[plain [''a'' \<mapsto> Num 3]]"
  let ?ps = "[computing b_from_a, computing c_from_a_b]"
  have hyp: "\<forall>k env h1. k < length ?ps \<and> runner settling (take k ?ps) (Ref 0) ?h = (Value env, h1) \<longrightarrow>
      (\<exists>out h2. (?ps ! k) env h1 = (Return out, h2) \<and> \<not> isThenable h2 out \<and>
         spread h2 env = spread h1 env)"
  proof (intro allI impI)
    fix k env h1
    assume a: "k < length ?ps \<and> runner settling (take k ?ps) (Ref 0) ?h = (Value env, h1)"
    then consider "k = 0" | "k = 1"
      by fastforce
    then show "\<exists>out h2. (?ps ! k) env h1 = (Return out, h2) \<and> \<not> isThenable h2 out \<and>
         spread h2 env = spread h1 env"
    proof cases
      case 1
      with a show ?thesis
        by (auto simp: eval_defs computing_def b_from_a_def)
    next
      case 2
      with a show ?thesis
        by (auto simp: eval_defs computing_def b_from_a_def c_from_a_b_def eval_nat_numeral)
    qed
  qed
  have ov: "overlaid (spread_or ?h (Ref 0)) (map (result_mapping settling ?ps (Ref 0) ?h) [0..<length ?ps])
      = [''a'' \<mapsto> Num 3, ''b'' \<mapsto> Num 3, ''c'' \<mapsto> Num 6]"
    by (simp add: result_mapping_def eval_defs computing_def b_from_a_def c_from_a_b_def
        eval_nat_numeral)
  have first: "\<exists>env' h'. runner settling ?ps (Ref 0) ?h = (Value env', h') \<and>
      spread h' env' = [''a'' \<mapsto> Num 3, ''b'' \<mapsto> Num 3, ''c'' \<mapsto> Num 6]"
    using sync_run_overlays_results [of ?ps settling "Ref 0" ?h] hyp unfolding ov by blast
  have hyp2: "\<forall>k env h1. k < length [nesting] \<and>
      runner settling (take k [nesting]) Undefined [] = (Value env, h1) \<longrightarrow>
      (\<exists>out h2. ([nesting] ! k) env h1 = (Return out, h2) \<and> \<not> isThenable h2 out \<and>
         spread h2 env = spread h1 env)"
    by (auto simp: eval_defs nesting_def)
  have ov2: "overlaid (spread_or [] Undefined)
      (map (result_mapping settling [nesting] Undefined []) [0..<length [nesting]])
      = [''inner'' \<mapsto> Ref 1]"
    by (simp add: result_mapping_def eval_defs nesting_def)
  have second: "\<exists>env' h'. runner settling [nesting] Undefined [] = (Value env', h') \<and>
      spread h' env' = [''inner'' \<mapsto> Ref 1]"
    using sync_run_overlays_results [of "[nesting]" settling Undefined "[]"] hyp2
    unfolding ov2 by blast
  from first second show ?thesis
    by blast
qed

text \<open>
  Claim C1, as stated, fails for a pass that writes to the environment it is handed, such
  as \<^verbatim>\<open>(env) => { const again = "seen" in env; env.seen = true; return { again } }\<close>. The
  pass returns an immediate mapping. It is handed the environment itself (line 134), and
  the merge (line 159) copies the environment as the pass left it: the returned
  environment has the field \<^verbatim>\<open>seen\<close>, which is a field of neither the input nor the result
  mapping of the pass.
\<close>

theorem sync_run_carries_writes:
  "fst (probing (Ref 1) [plain [''a'' \<mapsto> Num 3], plain [''a'' \<mapsto> Num 3]]) = Return (Ref 2) \<and>
   \<not> isThenable (snd (probing (Ref 1) [plain [''a'' \<mapsto> Num 3], plain [''a'' \<mapsto> Num 3]])) (Ref 2) \<and>
   result_mapping settling [probing] (Ref 0) [plain [''a'' \<mapsto> Num 3]] 0 = [''again'' \<mapsto> Bool False] \<and>
   fst (runner settling [probing] (Ref 0) [plain [''a'' \<mapsto> Num 3]]) = Value (Ref 3) \<and>
   spread (snd (runner settling [probing] (Ref 0) [plain [''a'' \<mapsto> Num 3]])) (Ref 3)
     = [''a'' \<mapsto> Num 3, ''seen'' \<mapsto> Bool True, ''again'' \<mapsto> Bool False] \<and>
   overlaid (spread_or [plain [''a'' \<mapsto> Num 3]] (Ref 0))
       (map (result_mapping settling [probing] (Ref 0) [plain [''a'' \<mapsto> Num 3]]) [0..<length [probing]])
     = [''a'' \<mapsto> Num 3, ''again'' \<mapsto> Bool False] \<and>
   spread (snd (runner settling [probing] (Ref 0) [plain [''a'' \<mapsto> Num 3]])) (Ref 3)
     \<noteq> overlaid (spread_or [plain [''a'' \<mapsto> Num 3]] (Ref 0))
       (map (result_mapping settling [probing] (Ref 0) [plain [''a'' \<mapsto> Num 3]]) [0..<length [probing]])"
proof -
  let ?h = "[plain [''a'' \<mapsto> Num 3]]"
  let ?h1 = "[plain [''a'' \<mapsto> Num 3], plain [''a'' \<mapsto> Num 3, ''seen'' \<mapsto> Bool True],
     plain [''again'' \<mapsto> Bool False]]"
  have p: "probing (Ref 1) [plain [''a'' \<mapsto> Num 3], plain [''a'' \<mapsto> Num 3]] = (Return (Ref 2), ?h1)"
    by (simp add: probing_def plain_def deref_def eval_nat_numeral)
  have n: "\<not> isThenable ?h1 (Ref 2)"
    by (simp add: isThenable_def deref_def plain_def eval_nat_numeral)
  have r: "runner settling [probing] (Ref 0) ?h =
      (Value (Ref 3), ?h1 @ [plain [''a'' \<mapsto> Num 3, ''seen'' \<mapsto> Bool True, ''again'' \<mapsto> Bool False]])"
    by (simp add: eval_defs probing_def eval_nat_numeral)
  have m: "result_mapping settling [probing] (Ref 0) ?h 0 = [''again'' \<mapsto> Bool False]"
    by (simp add: result_mapping_def eval_defs probing_def eval_nat_numeral)
  have ov: "overlaid (spread_or ?h (Ref 0)) (map (result_mapping settling [probing] (Ref 0) ?h) [0..<length [probing]])
      = [''a'' \<mapsto> Num 3, ''again'' \<mapsto> Bool False]"
    using m by (simp add: spread_or_def deref_def)
  have s: "spread (snd (runner settling [probing] (Ref 0) ?h)) (Ref 3)
      = [''a'' \<mapsto> Num 3, ''seen'' \<mapsto> Bool True, ''again'' \<mapsto> Bool False]"
    unfolding r by (simp add: deref_def)
  have ne: "[''a'' \<mapsto> Num 3, ''seen'' \<mapsto> Bool True, ''again'' \<mapsto> Bool False]
      \<noteq> [''a'' \<mapsto> Num 3, ''again'' \<mapsto> Bool False]"
  proof
    assume "[''a'' \<mapsto> Num 3, ''seen'' \<mapsto> Bool True, ''again'' \<mapsto> Bool False]
      = [''a'' \<mapsto> Num 3, ''again'' \<mapsto> Bool False]"
    from fun_cong [OF this, of "''seen''"] show False
      by simp
  qed
  show ?thesis
    unfolding s ov using p n m r ne by simp
qed


text \<open>
  Claim C3. If no pass of the invocation returns a deferred value (whenever the passes
  before index \<open>k\<close> have run synchronously to an environment and the pass at \<open>k\<close> returns
  on it, what it returns is not a thenable), the call of the runner returns no promise:
  it returns the final environment itself, the reference to the object allocated last.
  With no pass, that object is the copy of the input. Otherwise it holds the own fields
  of the environment that the passes before the last one have run to, as the last pass
  left them, overlaid by the own fields of what the last pass returned. The one other
  outcome is that a pass throws on the environment the passes before it have run to:
  then the call raises what the pass threw.
\<close>

theorem sync_run_returns_environment:
  "(\<forall>k env h1 out h2. k < length ps \<and> runner H (take k ps) input h = (Value env, h1) \<and>
       (ps ! k) env h1 = (Return out, h2) \<longrightarrow> \<not> isThenable h2 out) \<longrightarrow>
   (ps = [] \<and> runner H ps input h = (Value (Ref (length h)), h @ [plain (spread_or h input)])) \<or>
   (\<exists>qs p env h1 out h2. ps = qs @ [p] \<and> runner H qs input h = (Value env, h1) \<and>
      p env h1 = (Return out, h2) \<and>
      runner H ps input h =
        (Value (Ref (length h2)), h2 @ [plain (spread h2 env ++ spread_or h2 out)])) \<or>
   (\<exists>qs p rest env h1 e h2. ps = qs @ p # rest \<and> runner H qs input h = (Value env, h1) \<and>
      p env h1 = (Throw e, h2) \<and> runner H ps input h = (Raised e, h2))"
proof (induction ps rule: rev_induct)
  case Nil
  show ?case
    by (simp add: runner_def alloc_def)
next
  case (snoc p ps)
  show ?case
  proof
    assume hyp: "\<forall>k env h1 out h2. k < length (ps @ [p]) \<and>
        runner H (take k (ps @ [p])) input h = (Value env, h1) \<and>
        ((ps @ [p]) ! k) env h1 = (Return out, h2) \<longrightarrow> \<not> isThenable h2 out"
    have "\<forall>k env h1 out h2. k < length ps \<and> runner H (take k ps) input h = (Value env, h1) \<and>
        (ps ! k) env h1 = (Return out, h2) \<longrightarrow> \<not> isThenable h2 out"
    proof (intro allI impI)
      fix k env h1 out h2
      assume a: "k < length ps \<and> runner H (take k ps) input h = (Value env, h1) \<and>
        (ps ! k) env h1 = (Return out, h2)"
      then have "k < length (ps @ [p]) \<and> runner H (take k (ps @ [p])) input h = (Value env, h1) \<and>
        ((ps @ [p]) ! k) env h1 = (Return out, h2)"
        by (simp add: nth_append)
      with hyp show "\<not> isThenable h2 out"
        by blast
    qed
    with snoc.IH consider
      (val) env h1 where "runner H ps input h = (Value env, h1)"
      | (raised) qs q rest env h1 e h2 where "ps = qs @ q # rest"
          "runner H qs input h = (Value env, h1)" "q env h1 = (Throw e, h2)"
          "runner H ps input h = (Raised e, h2)"
      by blast
    then show "(ps @ [p] = [] \<and>
        runner H (ps @ [p]) input h = (Value (Ref (length h)), h @ [plain (spread_or h input)])) \<or>
      (\<exists>qs pa env h1 out h2. ps @ [p] = qs @ [pa] \<and> runner H qs input h = (Value env, h1) \<and>
         pa env h1 = (Return out, h2) \<and>
         runner H (ps @ [p]) input h =
           (Value (Ref (length h2)), h2 @ [plain (spread h2 env ++ spread_or h2 out)])) \<or>
      (\<exists>qs pa rest env h1 e h2. ps @ [p] = qs @ pa # rest \<and>
         runner H qs input h = (Value env, h1) \<and> pa env h1 = (Throw e, h2) \<and>
         runner H (ps @ [p]) input h = (Raised e, h2))"
    proof cases
      case raised
      have "ps @ [p] = qs @ q # (rest @ [p])"
        using raised(1) by simp
      moreover have "runner H (ps @ [p]) input h = (Raised e, h2)"
        using raised(4) by (rule runner_append_Raised)
      ultimately show ?thesis
        using raised(2,3) by blast
    next
      case val
      have run: "runner H (ps @ [p]) input h = sync_loop H [p] env h1"
        using val by (rule runner_append_Value)
      show ?thesis
      proof (cases "p env h1")
        case (Pair r h2)
        show ?thesis
        proof (cases r)
          case (Throw e)
          then have "runner H (ps @ [p]) input h = (Raised e, h2)"
            using run Pair by simp
          moreover have "ps @ [p] = ps @ p # []"
            by simp
          ultimately show ?thesis
            using val Pair Throw by blast
        next
          case (Return out)
          have "\<not> isThenable h2 out"
            using hyp [rule_format, of "length ps" env h1 out h2] val Pair Return
            by simp
          then have "runner H (ps @ [p]) input h =
              (Value (Ref (length h2)), h2 @ [plain (spread h2 env ++ spread_or h2 out)])"
            using val Pair Return by (intro runner_snoc_immediate) simp_all
          then show ?thesis
            using val Pair Return by blast
        qed
      qed
    qed
  qed
qed

theorem sync_run_returns_environment_witness:
  "runner settling [computing b_from_a] (Ref 0) [plain [''a'' \<mapsto> Num 3]] =
     (Value (Ref 3),
      [plain [''a'' \<mapsto> Num 3], plain [''a'' \<mapsto> Num 3], plain [''b'' \<mapsto> Num 3],
       plain [''a'' \<mapsto> Num 3, ''b'' \<mapsto> Num 3]]) \<and>
   runner settling [computing b_from_a, computing c_from_a_b] (Ref 0) [plain [''a'' \<mapsto> Num 3]] =
     (Value (Ref 5),
      [plain [''a'' \<mapsto> Num 3], plain [''a'' \<mapsto> Num 3], plain [''b'' \<mapsto> Num 3],
       plain [''a'' \<mapsto> Num 3, ''b'' \<mapsto> Num 3], plain [''c'' \<mapsto> Num 6]] @
      [plain [''a'' \<mapsto> Num 3, ''b'' \<mapsto> Num 3, ''c'' \<mapsto> Num 6]])"
proof -
  let ?h = "[plain [''a'' \<mapsto> Num 3]]"
  let ?ps = "[computing b_from_a, computing c_from_a_b]"
  let ?h1 = "[plain [''a'' \<mapsto> Num 3], plain [''a'' \<mapsto> Num 3], plain [''b'' \<mapsto> Num 3],
       plain [''a'' \<mapsto> Num 3, ''b'' \<mapsto> Num 3]]"
  let ?h2 = "?h1 @ [plain [''c'' \<mapsto> Num 6]]"
  have imm: "\<not> isThenable h2 out" if "computing g env h1 = (Return out, h2)" "\<forall>m. g m ''then'' = None"
    for g env h1 out h2
    using computing_immediate [of g] that unfolding immediate_def by blast
  have hyp: "\<forall>k env h1 out h2. k < length ?ps \<and>
      runner settling (take k ?ps) (Ref 0) ?h = (Value env, h1) \<and>
      (?ps ! k) env h1 = (Return out, h2) \<longrightarrow> \<not> isThenable h2 out"
  proof (intro allI impI)
    fix k env h1 out h2
    assume a: "k < length ?ps \<and> runner settling (take k ?ps) (Ref 0) ?h = (Value env, h1) \<and>
      (?ps ! k) env h1 = (Return out, h2)"
    then consider "k = 0" | "k = 1"
      by fastforce
    then show "\<not> isThenable h2 out"
    proof cases
      case 1
      with a show ?thesis
        using imm [of b_from_a env h1 out h2] by (simp add: b_from_a_def)
    next
      case 2
      with a show ?thesis
        using imm [of c_from_a_b env h1 out h2] by (simp add: c_from_a_b_def)
    qed
  qed
  have r1: "runner settling [computing b_from_a] (Ref 0) ?h = (Value (Ref 3), ?h1)"
    by (simp add: eval_defs computing_def b_from_a_def eval_nat_numeral)
  have p2: "computing c_from_a_b (Ref 3) ?h1 = (Return (Ref 4), ?h2)"
    by (simp add: computing_def returning_def alloc_def c_from_a_b_def deref_def eval_nat_numeral)
  have m: "spread ?h2 (Ref 3) ++ spread_or ?h2 (Ref 4)
      = [''a'' \<mapsto> Num 3, ''b'' \<mapsto> Num 3, ''c'' \<mapsto> Num 6]"
    by (simp add: spread_or_def deref_def eval_nat_numeral)
  from sync_run_returns_environment [of ?ps settling "Ref 0" ?h] hyp
  consider
    (none) "?ps = []"
    | (last) qs p env h1 out h2 where "?ps = qs @ [p]" "runner settling qs (Ref 0) ?h = (Value env, h1)"
        "p env h1 = (Return out, h2)"
        "runner settling ?ps (Ref 0) ?h =
          (Value (Ref (length h2)), h2 @ [plain (spread h2 env ++ spread_or h2 out)])"
    | (raised) qs p rest env h1 e h2 where "?ps = qs @ p # rest"
        "runner settling qs (Ref 0) ?h = (Value env, h1)" "p env h1 = (Throw e, h2)"
    by blast
  then have "runner settling ?ps (Ref 0) ?h =
      (Value (Ref 5), ?h2 @ [plain [''a'' \<mapsto> Num 3, ''b'' \<mapsto> Num 3, ''c'' \<mapsto> Num 6]])"
  proof cases
    case none
    then show ?thesis by simp
  next
    case last
    from last(1) have "qs = [computing b_from_a]" "p = computing c_from_a_b"
      by (simp_all add: append_eq_Cons_conv Cons_eq_append_conv)
    then have e: "env = Ref 3" "h1 = ?h1"
      using last(2) r1 by simp_all
    then have o: "out = Ref 4" "h2 = ?h2"
      using last(3) p2 \<open>p = computing c_from_a_b\<close> by simp_all
    show ?thesis
      using last(4) m unfolding o e by (simp add: eval_nat_numeral)
  next
    case raised
    from raised(1) consider "qs = []" "p = computing b_from_a"
      | "qs = [computing b_from_a]" "p = computing c_from_a_b"
      by (auto simp: append_eq_Cons_conv Cons_eq_append_conv)
    then show ?thesis
    proof cases
      case 1
      with raised(2,3) show ?thesis
        by (simp add: eval_defs computing_def)
    next
      case 2
      then have "env = Ref 3" "h1 = ?h1"
        using raised(2) r1 by simp_all
      with raised(3) p2 2 show ?thesis
        by simp
    qed
  qed
  with r1 show ?thesis
    by simp
qed


section \<open>The deferred run\<close>

lemma resolve_not_thenable:
  "\<not> isThenable h v \<Longrightarrow> Promise_resolve H v h = (Fulfilled v, h)"
  by (simp add: Promise_resolve_def)

lemma resolving_with_deferring: "deferring (resolving_with g)"
  by (auto simp: deferring_def resolving_with_def resolving_def isThenable_def thenable_obj_def
      fn_obj_def deref_def nth_append)

lemma merged_through_append:
  "merged_through H (ps @ qs) env h =
     (case merged_through H ps env h of
        (Fulfilled v, h1) \<Rightarrow> merged_through H qs v h1
      | (Rejected e, h1) \<Rightarrow> (Rejected e, h1)
      | (Pending, h1) \<Rightarrow> (Pending, h1))"
  by (induction H ps env h rule: merged_through.induct)
     (auto split: prod.splits outcome.splits settled.splits)

lemma merged_through_Cons:
  "merged_through H (q # qs) env h =
     (case merged_through H [q] env h of
        (Fulfilled v, h1) \<Rightarrow> merged_through H qs v h1
      | (Rejected e, h1) \<Rightarrow> (Rejected e, h1)
      | (Pending, h1) \<Rightarrow> (Pending, h1))"
  using merged_through_append [of H "[q]" qs env h] by simp

lemma sync_loop_Value_merged:
  "sync_loop H ps env h = (Value v, h1) \<Longrightarrow> merged_through H ps env h = (Fulfilled v, h1)"
  by (induction H ps env h rule: sync_loop.induct)
     (auto simp: merge_def alloc_def Promise_resolve_def
           split: prod.splits outcome.splits if_splits)

lemma chain_merged:
  assumes P: "P h = (Fulfilled env, h1)"
    and tf: "\<forall>v h'. merged_through H [q] env h1 = (Fulfilled v, h') \<longrightarrow> \<not> isThenable h' v"
  shows "chain H P q h = merged_through H [q] env h1"
proof (cases "q env h1")
  case (Pair r h2)
  show ?thesis
  proof (cases r)
    case (Throw e)
    then show ?thesis
      using P Pair by (simp add: chain_Fulfilled)
  next
    case (Return maybe)
    obtain s h3 where r3: "Promise_resolve H maybe h2 = (s, h3)"
      by (cases "Promise_resolve H maybe h2")
    show ?thesis
    proof (cases s)
      case (Fulfilled w)
      let ?h4 = "h3 @ [plain (spread h3 env ++ spread_or h3 w)]"
      have m: "merged_through H [q] env h1 = (Fulfilled (Ref (length h3)), ?h4)"
        using Pair Return r3 Fulfilled by simp
      with tf have "\<not> isThenable ?h4 (Ref (length h3))"
        by blast
      then have "Promise_resolve H (Ref (length h3)) ?h4 = (Fulfilled (Ref (length h3)), ?h4)"
        by (rule resolve_not_thenable)
      then show ?thesis
        using P Pair Return r3 Fulfilled by (simp add: chain_Fulfilled)
    next
      case (Rejected e)
      then show ?thesis
        using P Pair Return r3 by (simp add: chain_Fulfilled)
    next
      case Pending
      then show ?thesis
        using P Pair Return r3 by (simp add: chain_Fulfilled)
    qed
  qed
qed

lemma foldl_chain_merged:
  assumes "P h = (Fulfilled env, h1)"
    and "\<forall>j v h'. 0 < j \<and> j \<le> length qs \<and> merged_through H (take j qs) env h1 = (Fulfilled v, h')
           \<longrightarrow> \<not> isThenable h' v"
  shows "foldl (chain H) P qs h = merged_through H qs env h1"
  using assms
proof (induction qs arbitrary: P env h1)
  case Nil
  then show ?case by simp
next
  case (Cons q qs)
  have one: "\<forall>v h'. merged_through H [q] env h1 = (Fulfilled v, h') \<longrightarrow> \<not> isThenable h' v"
    using Cons.prems(2) [rule_format, of 1] by simp
  have c: "chain H P q h = merged_through H [q] env h1"
    using Cons.prems(1) one by (rule chain_merged)
  obtain s h2 where m: "merged_through H [q] env h1 = (s, h2)"
    by (cases "merged_through H [q] env h1")
  show ?case
  proof (cases s)
    case (Fulfilled v)
    have tf: "\<forall>j w h'. 0 < j \<and> j \<le> length qs \<and> merged_through H (take j qs) v h2 = (Fulfilled w, h')
           \<longrightarrow> \<not> isThenable h' w"
    proof (intro allI impI)
      fix j w h'
      assume a: "0 < j \<and> j \<le> length qs \<and> merged_through H (take j qs) v h2 = (Fulfilled w, h')"
      have "merged_through H (take (Suc j) (q # qs)) env h1 = merged_through H (take j qs) v h2"
        using m Fulfilled merged_through_Cons [of H q "take j qs" env h1] by simp
      with a show "\<not> isThenable h' w"
        using Cons.prems(2) [rule_format, of "Suc j" w h'] by simp
    qed
    have "foldl (chain H) (chain H P q) qs h = merged_through H qs v h2"
      using c m Fulfilled tf by (intro Cons.IH) simp_all
    then show ?thesis
      using m Fulfilled merged_through_Cons [of H q qs env h1] by simp
  next
    case (Rejected e)
    then show ?thesis
      using c m merged_through_Cons [of H q qs env h1] by (simp add: foldl_chain_Rejected)
  next
    case Pending
    then show ?thesis
      using c m merged_through_Cons [of H q qs env h1] by (simp add: foldl_chain_Pending)
  qed
qed

lemma deferred_merged:
  assumes p: "p env h = (Return out, h1)"
    and tf: "\<forall>j v h'. 0 < j \<and> j \<le> length (p # qs) \<and>
           merged_through H (take j (p # qs)) env h = (Fulfilled v, h') \<longrightarrow> \<not> isThenable h' v"
  shows "deferred H env out qs h1 = merged_through H (p # qs) env h"
proof -
  obtain s h2 where r: "Promise_resolve H out h1 = (s, h2)"
    by (cases "Promise_resolve H out h1")
  show ?thesis
  proof (cases s)
    case (Fulfilled w)
    let ?v = "Ref (length h2)"
    let ?h3 = "h2 @ [plain (spread h2 env ++ spread_or h2 w)]"
    have one: "merged_through H [p] env h = (Fulfilled ?v, ?h3)"
      using p r Fulfilled by simp
    have rest: "merged_through H (p # xs) env h = merged_through H xs ?v ?h3" for xs
      using p r Fulfilled by simp
    have "\<not> isThenable ?h3 ?v"
      using tf [rule_format, of 1 ?v ?h3] one by simp
    then have P: "Promise_resolve H ?v ?h3 = (Fulfilled ?v, ?h3)"
      by (rule resolve_not_thenable)
    have tf': "\<forall>j v h'. 0 < j \<and> j \<le> length qs \<and>
        merged_through H (take j qs) ?v ?h3 = (Fulfilled v, h') \<longrightarrow> \<not> isThenable h' v"
    proof (intro allI impI)
      fix j v h'
      assume a: "0 < j \<and> j \<le> length qs \<and> merged_through H (take j qs) ?v ?h3 = (Fulfilled v, h')"
      then have "merged_through H (take (Suc j) (p # qs)) env h = (Fulfilled v, h')"
        using rest [of "take j qs"] by simp
      with a show "\<not> isThenable h' v"
        using tf [rule_format, of "Suc j" v h'] by simp
    qed
    have f: "foldl (chain H) (Promise_resolve H ?v) qs ?h3 = merged_through H qs ?v ?h3"
      using P tf' by (rule foldl_chain_merged)
    have d: "deferred H env out qs h1 =
        Promise_then H (foldl (chain H) (Promise_resolve H ?v) qs)
          (\<lambda>finalEnv h. (CbValue finalEnv, h)) ?h3"
      using r Fulfilled by (simp add: deferred_unfold)
    obtain s' h' where m: "merged_through H qs ?v ?h3 = (s', h')"
      by (cases "merged_through H qs ?v ?h3")
    show ?thesis
    proof (cases s')
      case (Fulfilled v)
      have "merged_through H (take (length (p # qs)) (p # qs)) env h = (Fulfilled v, h')"
        using m Fulfilled rest [of qs] by simp
      then have "\<not> isThenable h' v"
        using tf [rule_format, of "length (p # qs)" v h'] by simp
      then have "Promise_resolve H v h' = (Fulfilled v, h')"
        by (rule resolve_not_thenable)
      then show ?thesis
        using d f m Fulfilled rest [of qs] by (simp add: finish_unfold)
    next
      case (Rejected e)
      then show ?thesis
        using d f m rest [of qs] by (simp add: finish_unfold)
    next
      case Pending
      then show ?thesis
        using d f m rest [of qs] by (simp add: finish_unfold)
    qed
  next
    case (Rejected e)
    then show ?thesis
      using p r by (simp add: deferred_unfold)
  next
    case Pending
    then show ?thesis
      using p r by (simp add: deferred_unfold)
  qed
qed

lemma final_environment_Value:
  "runner H ps input h = (Value env, h1) \<Longrightarrow>
   final_environment H (ps @ qs) input h = merged_through H qs env h1"
  by (simp add: final_environment_def runner_def alloc_def merged_through_append
      sync_loop_Value_merged)

text \<open>
  Claim C2, as the code has it. When the passes \<open>ps\<close> have run synchronously and the next
  pass \<open>p\<close> returns a thenable, the call of the runner returns a promise, whatever the
  passes \<open>qs\<close> after it do. Provided no environment merged from that pass on is itself a
  thenable (for no \<open>j\<close> beyond the index of \<open>p\<close> does the merge through the first \<open>j\<close>
  passes end in an environment with a callable \<^verbatim>\<open>then\<close>), the promise settles as the merge
  through all the passes does: it fulfils with the environment merged through all of
  them in registration order, and it is rejected, or stays pending, when that merge is.
\<close>

theorem deferred_run_overlays_results:
  "runner H ps input h = (Value env, h1) \<and> p env h1 = (Return out, h2) \<and> isThenable h2 out \<longrightarrow>
     (\<exists>s h'. runner H (ps @ p # qs) input h = (Handle s, h')) \<and>
     ((\<forall>j v h'. length ps < j \<and> j \<le> length (ps @ p # qs) \<and>
          final_environment H (take j (ps @ p # qs)) input h = (Fulfilled v, h') \<longrightarrow>
          \<not> isThenable h' v) \<longrightarrow>
      (\<exists>s h'. final_environment H (ps @ p # qs) input h = (s, h') \<and>
         runner H (ps @ p # qs) input h = (Handle s, h')))"
proof (intro impI conjI)
  assume a: "runner H ps input h = (Value env, h1) \<and> p env h1 = (Return out, h2) \<and>
    isThenable h2 out"
  then show "\<exists>s h'. runner H (ps @ p # qs) input h = (Handle s, h')"
    by (auto simp: runner_append_Value split: prod.splits)
  assume tf: "\<forall>j v h'. length ps < j \<and> j \<le> length (ps @ p # qs) \<and>
      final_environment H (take j (ps @ p # qs)) input h = (Fulfilled v, h') \<longrightarrow>
      \<not> isThenable h' v"
  have tf': "\<forall>j v h'. 0 < j \<and> j \<le> length (p # qs) \<and>
      merged_through H (take j (p # qs)) env h1 = (Fulfilled v, h') \<longrightarrow> \<not> isThenable h' v"
  proof (intro allI impI)
    fix j v h'
    assume b: "0 < j \<and> j \<le> length (p # qs) \<and>
      merged_through H (take j (p # qs)) env h1 = (Fulfilled v, h')"
    have "final_environment H (take (length ps + j) (ps @ p # qs)) input h
        = merged_through H (take j (p # qs)) env h1"
      using a final_environment_Value [of H ps input h env h1 "take j (p # qs)"] by simp
    with b show "\<not> isThenable h' v"
      using tf [rule_format, of "length ps + j" v h'] by simp
  qed
  have "deferred H env out qs h2 = merged_through H (p # qs) env h1"
    using a tf' by (intro deferred_merged) simp_all
  moreover have "runner H (ps @ p # qs) input h =
      (case deferred H env out qs h2 of (s, h') \<Rightarrow> (Handle s, h'))"
    using a by (simp add: runner_append_Value)
  moreover have "final_environment H (ps @ p # qs) input h = merged_through H (p # qs) env h1"
    using a by (simp add: final_environment_Value)
  ultimately show "\<exists>s h'. final_environment H (ps @ p # qs) input h = (s, h') \<and>
         runner H (ps @ p # qs) input h = (Handle s, h')"
    by (cases "merged_through H (p # qs) env h1") simp
qed

theorem deferred_run_overlays_results_witness:
  "(\<exists>s h'. runner settling ([computing b_from_a] @ resolving_with c_from_a_b # [marking]) (Ref 0)
        [plain [''a'' \<mapsto> Num 3]] = (Handle s, h')) \<and>
   (\<exists>v h'. final_environment settling ([computing b_from_a] @ resolving_with c_from_a_b # [marking])
        (Ref 0) [plain [''a'' \<mapsto> Num 3]] = (Fulfilled v, h') \<and>
      runner settling ([computing b_from_a] @ resolving_with c_from_a_b # [marking]) (Ref 0)
        [plain [''a'' \<mapsto> Num 3]] = (Handle (Fulfilled v), h') \<and>
      spread h' v = [''a'' \<mapsto> Num 3, ''b'' \<mapsto> Num 3, ''c'' \<mapsto> Num 6, ''seen'' \<mapsto> Bool True])"
proof -
  let ?h = "[plain [''a'' \<mapsto> Num 3]]"
  let ?all = "[computing b_from_a] @ resolving_with c_from_a_b # [marking]"
  let ?h1 = "[plain [''a'' \<mapsto> Num 3], plain [''a'' \<mapsto> Num 3], plain [''b'' \<mapsto> Num 3],
       plain [''a'' \<mapsto> Num 3, ''b'' \<mapsto> Num 3]]"
  let ?h2 = "?h1 @ [plain [''c'' \<mapsto> Num 6], fn_obj 0, thenable_obj ''value'' (Ref 4) 5]"
  let ?h3 = "?h2 @ [plain [''a'' \<mapsto> Num 3, ''b'' \<mapsto> Num 3, ''c'' \<mapsto> Num 6]]"
  let ?h4 = "?h2 @ [plain [''a'' \<mapsto> Num 3, ''b'' \<mapsto> Num 3, ''c'' \<mapsto> Num 6, ''seen'' \<mapsto> Bool True],
       plain [''a'' \<mapsto> Num 3, ''b'' \<mapsto> Num 3, ''c'' \<mapsto> Num 6, ''seen'' \<mapsto> Bool True]]"
  have r: "runner settling [computing b_from_a] (Ref 0) ?h = (Value (Ref 3), ?h1)"
    by (simp add: eval_defs computing_def b_from_a_def eval_nat_numeral)
  have p: "resolving_with c_from_a_b (Ref 3) ?h1 = (Return (Ref 6), ?h2)"
    by (simp add: resolving_with_def resolving_def c_from_a_b_def deref_def eval_nat_numeral)
  have t: "isThenable ?h2 (Ref 6)"
    using resolving_with_deferring p unfolding deferring_def by blast
  have f2: "final_environment settling (take 2 ?all) (Ref 0) ?h = (Fulfilled (Ref 7), ?h3)"
    by (simp add: final_environment_def eval_defs computing_def resolving_with_def b_from_a_def
        c_from_a_b_def eval_nat_numeral)
  have f3: "final_environment settling ?all (Ref 0) ?h = (Fulfilled (Ref 8), ?h4)"
    by (simp add: final_environment_def eval_defs computing_def resolving_with_def b_from_a_def
        c_from_a_b_def marking_def eval_nat_numeral)
  have n2: "\<not> isThenable ?h3 (Ref 7)"
    by (simp add: isThenable_def deref_def plain_def eval_nat_numeral)
  have n3: "\<not> isThenable ?h4 (Ref 8)"
    by (simp add: isThenable_def deref_def plain_def eval_nat_numeral)
  have tf: "\<forall>j v h'. length [computing b_from_a] < j \<and> j \<le> length ?all \<and>
      final_environment settling (take j ?all) (Ref 0) ?h = (Fulfilled v, h') \<longrightarrow>
      \<not> isThenable h' v"
  proof (intro allI impI)
    fix j v h'
    assume a: "length [computing b_from_a] < j \<and> j \<le> length ?all \<and>
      final_environment settling (take j ?all) (Ref 0) ?h = (Fulfilled v, h')"
    then consider "j = 2" | "j = 3"
      by fastforce
    then show "\<not> isThenable h' v"
    proof cases
      case 1
      with a f2 n2 show ?thesis by simp
    next
      case 2
      with a f3 n3 show ?thesis by simp
    qed
  qed
  note inst = deferred_run_overlays_results [of settling "[computing b_from_a]" "Ref 0" ?h
      "Ref 3" ?h1 "resolving_with c_from_a_b" "Ref 6" ?h2 "[marking]"]
  have first: "\<exists>s h'. runner settling ?all (Ref 0) ?h = (Handle s, h')"
    using inst r p t by blast
  have "\<exists>s h'. final_environment settling ?all (Ref 0) ?h = (s, h') \<and>
      runner settling ?all (Ref 0) ?h = (Handle s, h')"
    using inst r p t tf by blast
  then have run: "runner settling ?all (Ref 0) ?h = (Handle (Fulfilled (Ref 8)), ?h4)"
    unfolding f3 by simp
  have "spread ?h4 (Ref 8)
      = [''a'' \<mapsto> Num 3, ''b'' \<mapsto> Num 3, ''c'' \<mapsto> Num 6, ''seen'' \<mapsto> Bool True]"
    by (simp add: deref_def eval_nat_numeral)
  with first f3 run show ?thesis
    by blast
qed

text \<open>
  Claim C2, as stated, fails for an input with a callable \<^verbatim>\<open>then\<close> of its own. The pass
  \<^verbatim>\<open>async () => ({ a: 1 })\<close> is the first, and the only one, to return a deferred value.
  The merged environment inherits the field \<^verbatim>\<open>then\<close> of the input, so
  \<^verbatim>\<open>Promise.resolve(env)\<close> (line 154) takes the environment for a thenable and follows it:
  the returned promise fulfils with whatever that \<^verbatim>\<open>then\<close> resolves with, here the object
  under the input's \<^verbatim>\<open>value\<close>, and not with the environment merged through the passes.
\<close>

theorem deferred_run_hijacked_by_then:
  "runner settling [] (Ref 2) hijack_heap =
     (Value (Ref 3), hijack_heap @ [plain [''then'' \<mapsto> Ref 0, ''value'' \<mapsto> Ref 1]]) \<and>
   fst (resolving_with a_is_1 (Ref 3)
          (hijack_heap @ [plain [''then'' \<mapsto> Ref 0, ''value'' \<mapsto> Ref 1]])) = Return (Ref 6) \<and>
   isThenable
     (snd (resolving_with a_is_1 (Ref 3)
          (hijack_heap @ [plain [''then'' \<mapsto> Ref 0, ''value'' \<mapsto> Ref 1]]))) (Ref 6) \<and>
   fst (final_environment settling [resolving_with a_is_1] (Ref 2) hijack_heap)
     = Fulfilled (Ref 7) \<and>
   spread (snd (final_environment settling [resolving_with a_is_1] (Ref 2) hijack_heap)) (Ref 7)
     = [''then'' \<mapsto> Ref 0, ''value'' \<mapsto> Ref 1, ''a'' \<mapsto> Num 1] \<and>
   fst (runner settling [resolving_with a_is_1] (Ref 2) hijack_heap)
     = Handle (Fulfilled (Ref 1)) \<and>
   spread (snd (runner settling [resolving_with a_is_1] (Ref 2) hijack_heap)) (Ref 1)
     = [''hijacked'' \<mapsto> Bool True] \<and>
   fst (runner settling [resolving_with a_is_1] (Ref 2) hijack_heap)
     \<noteq> Handle (fst (final_environment settling [resolving_with a_is_1] (Ref 2) hijack_heap))"
proof -
  let ?h0 = "hijack_heap @ [plain [''then'' \<mapsto> Ref 0, ''value'' \<mapsto> Ref 1]]"
  let ?h1 = "?h0 @ [plain [''a'' \<mapsto> Num 1], fn_obj 0, thenable_obj ''value'' (Ref 4) 5]"
  let ?h2 = "?h1 @ [plain [''then'' \<mapsto> Ref 0, ''value'' \<mapsto> Ref 1, ''a'' \<mapsto> Num 1]]"
  have r0: "runner settling [] (Ref 2) hijack_heap = (Value (Ref 3), ?h0)"
    by (simp add: eval_defs hijack_heap_def eval_nat_numeral)
  have p: "resolving_with a_is_1 (Ref 3) ?h0 = (Return (Ref 6), ?h1)"
    by (simp add: resolving_with_def resolving_def a_is_1_def hijack_heap_def eval_nat_numeral)
  have t: "isThenable ?h1 (Ref 6)"
    using resolving_with_deferring p unfolding deferring_def by blast
  have f: "final_environment settling [resolving_with a_is_1] (Ref 2) hijack_heap
      = (Fulfilled (Ref 7), ?h2)"
    by (simp add: final_environment_def eval_defs resolving_with_def a_is_1_def hijack_heap_def
        eval_nat_numeral)
  have run: "runner settling [resolving_with a_is_1] (Ref 2) hijack_heap
      = (Handle (Fulfilled (Ref 1)), ?h2)"
    by (simp add: eval_defs resolving_with_def a_is_1_def hijack_heap_def eval_nat_numeral)
  have s7: "spread ?h2 (Ref 7) = [''then'' \<mapsto> Ref 0, ''value'' \<mapsto> Ref 1, ''a'' \<mapsto> Num 1]"
    by (simp add: hijack_heap_def deref_def eval_nat_numeral)
  have s1: "spread ?h2 (Ref 1) = [''hijacked'' \<mapsto> Bool True]"
    by (simp add: hijack_heap_def deref_def)
  show ?thesis
    unfolding r0 p f run using t s7 s1 by simp
qed


section \<open>The environment and the objects of the caller\<close>

lemma untouched_refl: "n \<le> length h \<Longrightarrow> untouched n h h"
  by (simp add: untouched_def)

lemma untouched_trans: "untouched n h h1 \<Longrightarrow> untouched n h1 h2 \<Longrightarrow> untouched n h h2"
  by (simp add: untouched_def)

lemma untouched_append: "untouched n h h1 \<Longrightarrow> untouched n h (h1 @ xs)"
  by (simp add: untouched_def nth_append)

lemma untouched_mono: "untouched m h h1 \<Longrightarrow> n \<le> m \<Longrightarrow> untouched n h h1"
  by (simp add: untouched_def)

lemma pass_untouched:
  "writes_only_env p \<Longrightarrow> p (Ref a) h = (r, h1) \<Longrightarrow> n \<le> a \<Longrightarrow> n \<le> length h \<Longrightarrow>
   untouched n h h1"
  unfolding writes_only_env_def untouched_def
  by (metis (no_types, lifting) le_trans less_le_trans not_le)

lemma untouched_length: "untouched n h h1 \<Longrightarrow> n \<le> length h1"
  by (simp add: untouched_def)

lemma sync_loop_untouched:
  "\<forall>p\<in>set ps. writes_only_env p \<Longrightarrow> n \<le> a \<Longrightarrow> a < length h \<Longrightarrow>
   sync_loop H ps (Ref a) h = (res, h') \<Longrightarrow> \<forall>s. res \<noteq> Handle s \<Longrightarrow>
   untouched n h h' \<and> (\<forall>v. res = Value v \<longrightarrow> (\<exists>a'. v = Ref a' \<and> n \<le> a' \<and> a' < length h'))"
proof (induction ps arbitrary: a h)
  case Nil
  then show ?case by (auto simp: untouched_refl)
next
  case (Cons p ps)
  obtain r h1 where p: "p (Ref a) h = (r, h1)"
    by (cases "p (Ref a) h")
  have u1: "untouched n h h1"
    using Cons.prems p by (intro pass_untouched [of p a h r h1]) simp_all
  show ?case
  proof (cases r)
    case (Throw e)
    then show ?thesis
      using Cons.prems(4) p u1 by auto
  next
    case (Return out)
    have nt: "\<not> isThenable h1 out"
      using Cons.prems(4,5) p Return by (auto split: prod.splits)
    let ?h2 = "h1 @ [plain (spread h1 (Ref a) ++ spread_or h1 out)]"
    have run: "sync_loop H ps (Ref (length h1)) ?h2 = (res, h')"
      using Cons.prems(4) p Return nt by (simp add: merge_def alloc_def)
    have "untouched n ?h2 h' \<and>
        (\<forall>v. res = Value v \<longrightarrow> (\<exists>a'. v = Ref a' \<and> n \<le> a' \<and> a' < length h'))"
      using Cons.prems(1,5) run untouched_length [OF u1]
      by (intro Cons.IH) simp_all
    then show ?thesis
      using untouched_trans [OF untouched_append [OF u1]] by blast
  qed
qed

text \<open>The synchronous loop hands a pass no object but one the call allocated. With passes
  that write to no existing object but the environment they are handed, a call that
  stays synchronous leaves every object that existed before it as it was, and what it
  returns is an object it allocated.\<close>

lemma runner_untouched_sync:
  assumes "\<forall>p\<in>set ps. writes_only_env p" and "runner H ps input h = (res, h')"
    and "\<forall>s. res \<noteq> Handle s"
  shows "untouched (length h) h h' \<and>
    (\<forall>v. res = Value v \<longrightarrow> (\<exists>a. v = Ref a \<and> length h \<le> a \<and> a < length h'))"
proof -
  let ?h0 = "h @ [plain (spread_or h input)]"
  have h0: "untouched (length h) h ?h0"
    by (simp add: untouched_def nth_append)
  have "untouched (length h) ?h0 h' \<and>
      (\<forall>v. res = Value v \<longrightarrow> (\<exists>a'. v = Ref a' \<and> length h \<le> a' \<and> a' < length h'))"
    using assms
    by (intro sync_loop_untouched [of ps "length h" "length h" ?h0 H res h'])
       (simp_all add: runner_def alloc_def)
  then show ?thesis
    using untouched_trans [OF h0] by blast
qed

lemma writes_only_env_resolving_with: "writes_only_env (resolving_with g)"
  by (auto simp: writes_only_env_def resolving_with_def resolving_def nth_append)

lemma writes_only_env_probing: "writes_only_env probing"
  by (simp add: writes_only_env_def probing_def nth_append)

text \<open>
  Claim C8 and the code, after the switch. The input has a callable \<^verbatim>\<open>then\<close> of its own,
  which resolves with the object under the input's \<^verbatim>\<open>value\<close>, an object of the caller.
  The first pass, \<^verbatim>\<open>async () => ({ a: 1 })\<close>, makes the call switch to promises;
  \<^verbatim>\<open>Promise.resolve(env)\<close> (line 154) then follows the merged environment, and the second
  pass is handed, as its environment, what that \<^verbatim>\<open>then\<close> resolves with. The pass writes
  to the environment it is handed only, and the write lands in the caller's object, at
  address 1. A second call of the runner on the same input hands the pass the same
  object: the pass finds the mark the first call left. The synchronous loop (lines 132
  to 160), at the same input, does what the claim says: the pass alone leaves the
  caller's three objects as they were, and a second call does not see the first.
\<close>

theorem hijacked_run_shares_environment:
  "fst (runner settling [resolving_with a_is_1, probing] (Ref 2) hijack_heap)
     = Handle (Fulfilled (Ref 9)) \<and>
   spread after_first_run (Ref 9) ''again'' = Some (Bool False) \<and>
   hijack_heap ! 1 = plain [''hijacked'' \<mapsto> Bool True] \<and>
   after_first_run ! 1 = plain [''hijacked'' \<mapsto> Bool True, ''seen'' \<mapsto> Bool True] \<and>
   fst (runner settling [resolving_with a_is_1, probing] (Ref 2) after_first_run)
     = Handle (Fulfilled (Ref 16)) \<and>
   spread (snd (runner settling [resolving_with a_is_1, probing] (Ref 2) after_first_run)) (Ref 16)
     ''again'' = Some (Bool True) \<and>
   fst (runner settling [probing] (Ref 2) hijack_heap) = Value (Ref 5) \<and>
   take 3 (snd (runner settling [probing] (Ref 2) hijack_heap)) = hijack_heap \<and>
   spread (snd (runner settling [probing] (Ref 2) hijack_heap)) (Ref 5) ''again'' = Some (Bool False) \<and>
   fst (runner settling [probing] (Ref 2) (snd (runner settling [probing] (Ref 2) hijack_heap)))
     = Value (Ref 8) \<and>
   spread (snd (runner settling [probing] (Ref 2) (snd (runner settling [probing] (Ref 2) hijack_heap))))
     (Ref 8) ''again'' = Some (Bool False)"
proof -
  let ?in = "plain [''then'' \<mapsto> Ref 0, ''value'' \<mapsto> Ref 1]"
  let ?seen = "plain [''hijacked'' \<mapsto> Bool True, ''seen'' \<mapsto> Bool True]"
  let ?h1 = "[fn_obj 0, ?seen, ?in,
       ?in, plain [''a'' \<mapsto> Num 1], fn_obj 0, thenable_obj ''value'' (Ref 4) 5,
       plain [''then'' \<mapsto> Ref 0, ''value'' \<mapsto> Ref 1, ''a'' \<mapsto> Num 1],
       plain [''again'' \<mapsto> Bool False],
       plain [''hijacked'' \<mapsto> Bool True, ''seen'' \<mapsto> Bool True, ''again'' \<mapsto> Bool False]]"
  let ?h2 = "?h1 @ [?in, plain [''a'' \<mapsto> Num 1], fn_obj 0, thenable_obj ''value'' (Ref 11) 12,
       plain [''then'' \<mapsto> Ref 0, ''value'' \<mapsto> Ref 1, ''a'' \<mapsto> Num 1],
       plain [''again'' \<mapsto> Bool True],
       plain [''hijacked'' \<mapsto> Bool True, ''seen'' \<mapsto> Bool True, ''again'' \<mapsto> Bool True]]"
  let ?g1 = "hijack_heap @
      [plain [''then'' \<mapsto> Ref 0, ''value'' \<mapsto> Ref 1, ''seen'' \<mapsto> Bool True],
       plain [''again'' \<mapsto> Bool False],
       plain [''then'' \<mapsto> Ref 0, ''value'' \<mapsto> Ref 1, ''seen'' \<mapsto> Bool True, ''again'' \<mapsto> Bool False]]"
  let ?g2 = "?g1 @
      [plain [''then'' \<mapsto> Ref 0, ''value'' \<mapsto> Ref 1, ''seen'' \<mapsto> Bool True],
       plain [''again'' \<mapsto> Bool False],
       plain [''then'' \<mapsto> Ref 0, ''value'' \<mapsto> Ref 1, ''seen'' \<mapsto> Bool True, ''again'' \<mapsto> Bool False]]"
  have run1: "runner settling [resolving_with a_is_1, probing] (Ref 2) hijack_heap
      = (Handle (Fulfilled (Ref 9)), ?h1)"
    by (simp add: eval_defs resolving_with_def a_is_1_def hijack_heap_def probing_def
        eval_nat_numeral)
  then have a: "after_first_run = ?h1"
    by (simp add: after_first_run_def)
  have run2: "runner settling [resolving_with a_is_1, probing] (Ref 2) ?h1
      = (Handle (Fulfilled (Ref 16)), ?h2)"
    by (simp add: eval_defs resolving_with_def a_is_1_def probing_def eval_nat_numeral)
  have sync1: "runner settling [probing] (Ref 2) hijack_heap = (Value (Ref 5), ?g1)"
    by (simp add: eval_defs hijack_heap_def probing_def eval_nat_numeral)
  have sync2: "runner settling [probing] (Ref 2) ?g1 = (Value (Ref 8), ?g2)"
    by (simp add: eval_defs hijack_heap_def probing_def eval_nat_numeral)
  have s1: "spread ?h1 (Ref 9) ''again'' = Some (Bool False)"
    by (simp add: deref_def)
  have s2: "spread ?h2 (Ref 16) ''again'' = Some (Bool True)"
    by (simp add: deref_def)
  have s3: "spread ?g1 (Ref 5) ''again'' = Some (Bool False)"
    by (simp add: deref_def hijack_heap_def)
  have s4: "spread ?g2 (Ref 8) ''again'' = Some (Bool False)"
    by (simp add: deref_def hijack_heap_def)
  have t: "take 3 ?g1 = hijack_heap"
    by (simp add: hijack_heap_def)
  have o: "hijack_heap ! 1 = plain [''hijacked'' \<mapsto> Bool True]"
    by (simp add: hijack_heap_def)
  have o1: "after_first_run ! 1 = ?seen"
    unfolding a by simp
  have c1: "fst (runner settling [resolving_with a_is_1, probing] (Ref 2) hijack_heap)
      = Handle (Fulfilled (Ref 9))"
    unfolding run1 by simp
  have c2: "spread after_first_run (Ref 9) ''again'' = Some (Bool False)"
    unfolding a by (rule s1)
  have c3: "fst (runner settling [resolving_with a_is_1, probing] (Ref 2) after_first_run)
      = Handle (Fulfilled (Ref 16))"
    unfolding a run2 by simp
  have c4: "spread (snd (runner settling [resolving_with a_is_1, probing] (Ref 2) after_first_run))
      (Ref 16) ''again'' = Some (Bool True)"
    unfolding a run2 snd_conv by (rule s2)
  have c5: "fst (runner settling [probing] (Ref 2) hijack_heap) = Value (Ref 5)"
    unfolding sync1 by simp
  have c6: "take 3 (snd (runner settling [probing] (Ref 2) hijack_heap)) = hijack_heap"
    unfolding sync1 snd_conv by (rule t)
  have c7: "spread (snd (runner settling [probing] (Ref 2) hijack_heap)) (Ref 5) ''again''
      = Some (Bool False)"
    unfolding sync1 snd_conv by (rule s3)
  have c8: "fst (runner settling [probing] (Ref 2)
      (snd (runner settling [probing] (Ref 2) hijack_heap))) = Value (Ref 8)"
    unfolding sync1 snd_conv sync2 by simp
  have c9: "spread (snd (runner settling [probing] (Ref 2)
      (snd (runner settling [probing] (Ref 2) hijack_heap)))) (Ref 8) ''again'' = Some (Bool False)"
    unfolding sync1 snd_conv sync2 by (rule s4)
  from c1 c2 o o1 c3 c4 c5 c6 c7 c8 c9 show ?thesis
    by blast
qed


section \<open>Capability objects\<close>

lemma wrapper_capability:
  "ignores_receiver H c \<Longrightarrow> capability ob f c h \<Longrightarrow>
   wrapper H (Ref ob) env h = wrapper H (Ref f) env h"
  unfolding capability_def ignores_receiver_def
  by (simp add: wrapper_def invoke_def)

lemma get_append: "a < length h \<Longrightarrow> get (h @ hs) (Ref a) k = get h (Ref a) k"
  by (simp cong: option.case_cong)

lemma capability_alloc: "capability ob f c h \<Longrightarrow> capability ob f c (h @ [x])"
proof -
  assume a: "capability ob f c h"
  have f: "f < length h"
    using a by (cases "f < length h") (simp_all add: capability_def deref_def)
  have ob: "ob < length h"
    using a by (cases "ob < length h") (simp_all add: capability_def deref_def)
  show ?thesis
    using a f ob by (simp add: capability_def get_append del: get.simps)
qed

lemma resolve_keeps:
  "await_keeps I H \<Longrightarrow> I h \<Longrightarrow> Promise_resolve H v h = (s, h1) \<Longrightarrow> I h1"
  by (auto simp: Promise_resolve_def await_keeps_def split: if_splits)

lemma chain_agree:
  assumes al: "\<And>h x. I h \<Longrightarrow> I (h @ [x])" and aw: "await_keeps I H" and pq: "agree I q q'"
    and P: "P h = P' h" and I: "I (snd (P h))"
  shows "chain H P q h = chain H P' q' h \<and> I (snd (chain H P q h))"
proof (cases "P h")
  case (Pair s h1)
  then have P': "P' h = (s, h1)" and I1: "I h1"
    using P I by simp_all
  show ?thesis
  proof (cases s)
    case (Rejected e)
    then show ?thesis
      using Pair P' I1 by (simp add: chain_Rejected)
  next
    case Pending
    then show ?thesis
      using Pair P' I1 by (simp add: chain_Pending)
  next
    case (Fulfilled env)
    obtain r h2 where q: "q env h1 = (r, h2)"
      by (cases "q env h1")
    then have q': "q' env h1 = (r, h2)" and I2: "I h2"
      using pq I1 unfolding agree_def keeps_def by (metis, blast)
    show ?thesis
    proof (cases r)
      case (Throw e)
      then show ?thesis
        using Pair P' Fulfilled q q' I2 by (simp add: chain_Fulfilled)
    next
      case (Return maybe)
      obtain s3 h3 where r3: "Promise_resolve H maybe h2 = (s3, h3)"
        by (cases "Promise_resolve H maybe h2")
      have I3: "I h3"
        using resolve_keeps [OF aw I2 r3] .
      show ?thesis
      proof (cases s3)
        case (Fulfilled w)
        let ?h4 = "h3 @ [plain (spread h3 env ++ spread_or h3 w)]"
        obtain s5 h5 where r5: "Promise_resolve H (Ref (length h3)) ?h4 = (s5, h5)"
          by (cases "Promise_resolve H (Ref (length h3)) ?h4")
        have "I h5"
          using resolve_keeps [OF aw al [OF I3] r5] .
        then show ?thesis
          using Pair P' \<open>s = Fulfilled env\<close> q q' Return r3 Fulfilled r5
          by (simp add: chain_Fulfilled)
      next
        case (Rejected e)
        then show ?thesis
          using Pair P' \<open>s = Fulfilled env\<close> q q' Return r3 I3 by (simp add: chain_Fulfilled)
      next
        case Pending
        then show ?thesis
          using Pair P' \<open>s = Fulfilled env\<close> q q' Return r3 I3 by (simp add: chain_Fulfilled)
      qed
    qed
  qed
qed

lemma foldl_chain_agree:
  assumes al: "\<And>h x. I h \<Longrightarrow> I (h @ [x])" and aw: "await_keeps I H"
  shows "list_all2 (agree I) qs qs' \<Longrightarrow> P h = P' h \<Longrightarrow> I (snd (P h)) \<Longrightarrow>
    foldl (chain H) P qs h = foldl (chain H) P' qs' h"
proof (induction qs qs' arbitrary: P P' rule: list_all2_induct)
  case Nil
  then show ?case by simp
next
  case (Cons q qs q' qs')
  have "chain H P q h = chain H P' q' h \<and> I (snd (chain H P q h))"
    using al aw Cons.hyps(1) Cons.prems by (rule chain_agree)
  then have c: "chain H P q h = chain H P' q' h" and i: "I (snd (chain H P q h))"
    by blast+
  have "foldl (chain H) (chain H P q) qs h = foldl (chain H) (chain H P' q') qs' h"
    using c i by (rule Cons.IH)
  then show ?case
    by simp
qed

lemma deferred_agree:
  assumes al: "\<And>h x. I h \<Longrightarrow> I (h @ [x])" and aw: "await_keeps I H"
    and qs: "list_all2 (agree I) qs qs'" and I: "I h"
  shows "deferred H env out qs h = deferred H env out qs' h"
proof (cases "Promise_resolve H out h")
  case (Pair s h2)
  have I2: "I h2"
    using resolve_keeps [OF aw I Pair] .
  show ?thesis
  proof (cases s)
    case (Fulfilled w)
    let ?h3 = "h2 @ [plain (spread h2 env ++ spread_or h2 w)]"
    let ?P = "Promise_resolve H (Ref (length h2))"
    have "I (snd (?P ?h3))"
      using resolve_keeps [OF aw al [OF I2], of "Ref (length h2)"]
      by (cases "?P ?h3") simp
    then have "foldl (chain H) ?P qs ?h3 = foldl (chain H) ?P qs' ?h3"
      using foldl_chain_agree [OF al aw qs, of ?P ?h3 ?P] by simp
    then show ?thesis
      using Pair Fulfilled by (simp add: deferred_unfold finish_unfold)
  next
    case (Rejected e)
    then show ?thesis
      using Pair by (simp add: deferred_unfold)
  next
    case Pending
    then show ?thesis
      using Pair by (simp add: deferred_unfold)
  qed
qed

lemma sync_loop_agree:
  assumes al: "\<And>h x. I h \<Longrightarrow> I (h @ [x])" and aw: "await_keeps I H"
  shows "list_all2 (agree I) ps qs \<Longrightarrow> I h \<Longrightarrow> sync_loop H ps env h = sync_loop H qs env h"
proof (induction ps qs arbitrary: env h rule: list_all2_induct)
  case Nil
  then show ?case by simp
next
  case (Cons p ps q qs)
  obtain r h1 where p: "p env h = (r, h1)"
    by (cases "p env h")
  then have q: "q env h = (r, h1)" and I1: "I h1"
    using Cons.hyps(1) Cons.prems unfolding agree_def keeps_def by (metis, blast)
  show ?case
  proof (cases r)
    case (Throw e)
    then show ?thesis
      using p q by simp
  next
    case (Return out)
    show ?thesis
    proof (cases "isThenable h1 out")
      case True
      have "deferred H env out ps h1 = deferred H env out qs h1"
        using al aw Cons.hyps(2) I1 by (rule deferred_agree)
      then show ?thesis
        using p q Return True by simp
    next
      case False
      let ?h2 = "h1 @ [plain (spread h1 env ++ spread_or h1 out)]"
      have "sync_loop H ps (Ref (length h1)) ?h2 = sync_loop H qs (Ref (length h1)) ?h2"
        using al [OF I1] by (rule Cons.IH)
      then show ?thesis
        using p q Return False by (simp add: merge_def alloc_def)
    qed
  qed
qed

lemma agree_refl: "keeps I p \<Longrightarrow> agree I p p"
  by (simp add: agree_def)

text \<open>
  Claim C9, as the code has it. Let \<open>f\<close> be a function that does not depend on its
  receiver, and let the heap hold the capability object \<^verbatim>\<open>{ run: f }\<close>. The closure stored
  for the object then behaves as the closure stored for \<open>f\<close>; and, as long as the passes
  and thenables of the run leave the object and the function what they are, a pipeline
  with the object registered gives the same result, in the same final heap, as the
  pipeline with \<open>f\<close> registered in its place.
\<close>

theorem capability_object_as_callable:
  "ignores_receiver H c \<and> capability ob f c h \<and>
   (\<forall>p\<in>set (ps @ wrapper H (Ref f) # qs). keeps (capability ob f c) p) \<and>
   await_keeps (capability ob f c) H \<longrightarrow>
     (\<forall>env. wrapper H (Ref ob) env h = wrapper H (Ref f) env h) \<and>
     runner H (ps @ wrapper H (Ref ob) # qs) input h = runner H (ps @ wrapper H (Ref f) # qs) input h"
proof
  let ?I = "capability ob f c"
  assume a: "ignores_receiver H c \<and> ?I h \<and>
    (\<forall>p\<in>set (ps @ wrapper H (Ref f) # qs). keeps ?I p) \<and> await_keeps ?I H"
  have eq: "wrapper H (Ref ob) env h' = wrapper H (Ref f) env h'" if "?I h'" for env h'
    using wrapper_capability [of H c ob f h' env] a that by blast
  have "keeps ?I (wrapper H (Ref ob))"
    using a eq unfolding keeps_def by (metis in_set_conv_decomp)
  then have w: "agree ?I (wrapper H (Ref ob)) (wrapper H (Ref f))"
    using eq by (simp add: agree_def)
  have "list_all2 (agree ?I) ps ps" "list_all2 (agree ?I) qs qs"
    using a by (simp_all add: list_all2_same agree_refl)
  with w have l: "list_all2 (agree ?I) (ps @ wrapper H (Ref ob) # qs) (ps @ wrapper H (Ref f) # qs)"
    by (simp add: list_all2_appendI)
  have "sync_loop H (ps @ wrapper H (Ref ob) # qs) (Ref (length h)) (h @ [plain (spread_or h input)])
      = sync_loop H (ps @ wrapper H (Ref f) # qs) (Ref (length h)) (h @ [plain (spread_or h input)])"
    using a l by (intro sync_loop_agree [where I = ?I]) (simp_all add: capability_alloc)
  then show "(\<forall>env. wrapper H (Ref ob) env h = wrapper H (Ref f) env h) \<and>
     runner H (ps @ wrapper H (Ref ob) # qs) input h = runner H (ps @ wrapper H (Ref f) # qs) input h"
    using a eq by (simp add: runner_def alloc_def)
qed


lemma keeps_capability_returning: "keeps (capability ob f c) (returning m)"
  by (auto simp: keeps_def returning_def alloc_def capability_alloc)

lemma keeps_capability_wrapper_producing: "keeps (capability ob f c) (wrapper producing fn)"
  by (auto simp: keeps_def wrapper_def invoke_def producing_def returning_def alloc_def
      capability_alloc split: if_splits jsval.splits option.splits)

theorem capability_object_as_callable_witness:
  "runner producing ([returning [''a'' \<mapsto> Num 1]] @ wrapper producing (Ref 1) # []) Undefined cap_heap
     = runner producing ([returning [''a'' \<mapsto> Num 1]] @ wrapper producing (Ref 0) # []) Undefined cap_heap \<and>
   (\<exists>b h'. runner producing ([returning [''a'' \<mapsto> Num 1]] @ wrapper producing (Ref 1) # [])
        Undefined cap_heap = (Value (Ref b), h') \<and>
      spread h' (Ref b) = [''a'' \<mapsto> Num 1, ''output'' \<mapsto> Num 0])"
proof -
  have i: "ignores_receiver producing 0"
    by (simp add: ignores_receiver_def producing_def)
  have c: "capability 1 0 0 cap_heap"
    by (simp add: capability_def cap_heap_def deref_def fn_obj_def)
  have k: "\<forall>p\<in>set ([returning [''a'' \<mapsto> Num 1]] @ wrapper producing (Ref 0) # []).
      keeps (capability 1 0 0) p"
    by (simp add: keeps_capability_returning keeps_capability_wrapper_producing)
  have a: "await_keeps (capability 1 0 0) producing"
    by (simp add: await_keeps_def producing_def)
  have eq: "runner producing ([returning [''a'' \<mapsto> Num 1]] @ wrapper producing (Ref 1) # []) Undefined cap_heap
     = runner producing ([returning [''a'' \<mapsto> Num 1]] @ wrapper producing (Ref 0) # []) Undefined cap_heap"
    using capability_object_as_callable [of producing 0 1 0 cap_heap "[returning [''a'' \<mapsto> Num 1]]"
        "[]" Undefined] i c k a
    by blast
  have "runner producing ([returning [''a'' \<mapsto> Num 1]] @ wrapper producing (Ref 0) # []) Undefined cap_heap
     = (Value (Ref 6), cap_heap @ [plain Map.empty, plain [''a'' \<mapsto> Num 1], plain [''a'' \<mapsto> Num 1],
          plain [''output'' \<mapsto> Num 0], plain [''a'' \<mapsto> Num 1, ''output'' \<mapsto> Num 0]])"
    by (simp add: eval_defs wrapper_def invoke_def producing_def cap_heap_def eval_nat_numeral)
  with eq show ?thesis
    by (simp add: cap_heap_def deref_def)
qed

text \<open>
  Claim C9, as stated for every function, fails for a function that uses its receiver:
  the closure calls \<^verbatim>\<open>fn(env)\<close> without receiver and \<^verbatim>\<open>obj.run(env)\<close> on the object. For
  \<^verbatim>\<open>function (env) { return this }\<close> the pipeline with \<^verbatim>\<open>{ run: f }\<close> merges the object's
  fields into the environment, the pipeline with \<open>f\<close> merges nothing.
\<close>

theorem capability_object_receiver_matters:
  "capability 1 0 0 cap_heap \<and>
   (\<exists>b h1 d h2.
      runner settling [wrapper settling (Ref 1)] Undefined cap_heap = (Value (Ref b), h1) \<and>
      runner settling [wrapper settling (Ref 0)] Undefined cap_heap = (Value (Ref d), h2) \<and>
      spread h1 (Ref b) = [''run'' \<mapsto> Ref 0] \<and> spread h2 (Ref d) = Map.empty \<and>
      spread h1 (Ref b) \<noteq> spread h2 (Ref d))"
proof -
  have c: "capability 1 0 0 cap_heap"
    by (simp add: capability_def cap_heap_def deref_def fn_obj_def)
  have r1: "runner settling [wrapper settling (Ref 1)] Undefined cap_heap
      = (Value (Ref 3), cap_heap @ [plain Map.empty, plain [''run'' \<mapsto> Ref 0]])"
    by (simp add: eval_defs wrapper_def invoke_def cap_heap_def eval_nat_numeral)
  have r0: "runner settling [wrapper settling (Ref 0)] Undefined cap_heap
      = (Value (Ref 3), cap_heap @ [plain Map.empty, plain Map.empty])"
    by (simp add: eval_defs wrapper_def invoke_def cap_heap_def eval_nat_numeral)
  have s1: "spread (cap_heap @ [plain Map.empty, plain [''run'' \<mapsto> Ref 0]]) (Ref 3) = [''run'' \<mapsto> Ref 0]"
    by (simp add: cap_heap_def deref_def)
  have s0: "spread (cap_heap @ [plain Map.empty, plain Map.empty]) (Ref 3) = Map.empty"
    by (simp add: cap_heap_def deref_def)
  have ne: "[''run'' \<mapsto> Ref 0] \<noteq> (Map.empty :: fields)"
    by simp
  show ?thesis
    using c r1 r0 s1 s0 ne by (metis (no_types, lifting))
qed


end
